theory Spec2Isabelle
  imports Complex_Main "HOL-Library.Word" "HOL-Library.Signed_Division"
begin

section \<open>Machine integers and undefined behaviour\<close>

text \<open>
  The header \<^verbatim>\<open>sycl-implementation.hpp\<close> stores every size and coordinate as
  \<^verbatim>\<open>intptr_t\<close> inside a \<^verbatim>\<open>std::vector\<close>. On the LP64 targets of the library this
  is a 64-bit two's complement integer, read here through \<open>sint\<close>.

  C++ leaves signed overflow, division by zero and a read past the end of a
  vector undefined; a failed \<^verbatim>\<open>BOOST_ASSERT\<close> aborts the program; and a use of a
  member template whose instantiation is ill-formed is refused by the compiler.
  None of these is a value a caller can observe, so each of them is a \<open>fault\<close> of
  the model and every operation that can run into one returns \<open>fault + result\<close>.
\<close>

type_synonym intptr_t = "64 word"

datatype fault = OutOfRange | DivideByZero | Overflow | AssertionFailure | IllFormed

definition representable :: "int \<Rightarrow> bool" where
  "representable v \<longleftrightarrow> - (2 ^ 63) \<le> v \<and> v < 2 ^ 63"

text \<open>The result of a signed arithmetic operation whose exact value is \<open>v\<close>.\<close>

definition checked :: "int \<Rightarrow> fault + intptr_t" where
  "checked v = (if representable v then Inr (word_of_int v) else Inl Overflow)"

text \<open>\<^verbatim>\<open>v[i]\<close> on a \<^verbatim>\<open>std::vector\<close>: defined only below \<^verbatim>\<open>v.size()\<close>.\<close>

definition vector_at :: "'a list \<Rightarrow> nat \<Rightarrow> fault + 'a" where
  "vector_at v i = (if i < length v then Inr (v ! i) else Inl OutOfRange)"

section \<open>Index and range algebra\<close>

text \<open>
  \<^verbatim>\<open>template <size_t Dimensions> struct range : std::vector<intptr_t>\<close>.
  The template parameter is not part of the stored data: the vector has whatever
  length its constructor gave it. The model keeps the two apart in the same way: a
  range is the list of its components, and every function that the source
  instantiates at \<^verbatim>\<open>Dimensions\<close> takes that number as its first argument \<open>D\<close>.
  \<^verbatim>\<open>id\<close> and \<^verbatim>\<open>group\<close> are aliases of \<^verbatim>\<open>range\<close>.
\<close>

type_synonym range = "intptr_t list"
type_synonym id = "intptr_t list"
type_synonym group = "intptr_t list"

text \<open>\<^verbatim>\<open>range() : vector(Dimensions) {}\<close>: a vector of \<open>D\<close> zeros.\<close>

definition range_default :: "nat \<Rightarrow> range" where
  "range_default D = replicate D 0"

text \<open>
  \<^verbatim>\<open>range(Integers... size_of_dimension_i)\<close> and the inherited initializer-list
  constructor: the vector holds exactly the values listed, however many there are.
\<close>

definition range_of :: "intptr_t list \<Rightarrow> range" where
  "range_of size_of_dimension = size_of_dimension"

text \<open>
  The three element-wise operators share one loop,
  \<^verbatim>\<open>for (int i = 0; i < Dimensions; i++) result[i] = a[i] op b[i];\<close>
  over a default-constructed \<^verbatim>\<open>result\<close>.
\<close>

function elementwise ::
  "nat \<Rightarrow> (intptr_t \<Rightarrow> intptr_t \<Rightarrow> fault + intptr_t) \<Rightarrow> range \<Rightarrow> range \<Rightarrow> nat \<Rightarrow> range
     \<Rightarrow> fault + range" where
  "elementwise D opr a b i result =
     (if i < D then
        (case vector_at a i of
           Inl e \<Rightarrow> Inl e
         | Inr x \<Rightarrow>
            (case vector_at b i of
               Inl e \<Rightarrow> Inl e
             | Inr y \<Rightarrow>
                (case opr x y of
                   Inl e \<Rightarrow> Inl e
                 | Inr v \<Rightarrow> elementwise D opr a b (Suc i) (result[i := v]))))
      else Inr result)"
  by pat_completeness auto
termination
  by (relation "measure (\<lambda>(D, opr, a, b, i, result). D - i)") auto

text \<open>
  \<^verbatim>\<open>(dividend[i] + divisor[i] - 1)/divisor[i]\<close>: the sum, then the decrement, then
  the C++ division, which truncates towards zero (\<open>sdiv\<close>).
\<close>

definition div_up :: "intptr_t \<Rightarrow> intptr_t \<Rightarrow> fault + intptr_t" where
  "div_up x y =
     (case checked (sint x + sint y) of
        Inl e \<Rightarrow> Inl e
      | Inr s \<Rightarrow>
         (case checked (sint s - 1) of
            Inl e \<Rightarrow> Inl e
          | Inr t \<Rightarrow> if y = 0 then Inl DivideByZero else checked (sint t sdiv sint y)))"

definition times_elem :: "intptr_t \<Rightarrow> intptr_t \<Rightarrow> fault + intptr_t" where
  "times_elem x y = checked (sint x * sint y)"

definition plus_elem :: "intptr_t \<Rightarrow> intptr_t \<Rightarrow> fault + intptr_t" where
  "plus_elem x y = checked (sint x + sint y)"

text \<open>\<^verbatim>\<open>operator /\<close>, \<^verbatim>\<open>operator *\<close> and \<^verbatim>\<open>operator +\<close> on ranges.\<close>

definition range_div :: "nat \<Rightarrow> range \<Rightarrow> range \<Rightarrow> fault + range" where
  "range_div D dividend divisor = elementwise D div_up dividend divisor 0 (range_default D)"

definition range_times :: "nat \<Rightarrow> range \<Rightarrow> range \<Rightarrow> fault + range" where
  "range_times D a b = elementwise D times_elem a b 0 (range_default D)"

definition range_plus :: "nat \<Rightarrow> range \<Rightarrow> range \<Rightarrow> fault + range" where
  "range_plus D a b = elementwise D plus_elem a b 0 (range_default D)"

section \<open>ND-range and item descriptors\<close>

record nd_range =
  GlobalRange :: range
  LocalRange :: range
  Offset :: id

text \<open>
  The constructor of \<^verbatim>\<open>nd_range<dims>\<close>. Its third parameter has the default
  argument \<^verbatim>\<open>{ 0, 0, 0 }\<close>, written out for every \<^verbatim>\<open>dims\<close>; \<open>None\<close> stands for a
  call that leaves the argument out.
\<close>

definition make_nd_range :: "nat \<Rightarrow> range \<Rightarrow> range \<Rightarrow> id option \<Rightarrow> nd_range" where
  "make_nd_range dims global_size local_size offset =
     \<lparr>GlobalRange = global_size,
      LocalRange = local_size,
      Offset = (case offset of None \<Rightarrow> range_of [0, 0, 0] | Some off \<Rightarrow> off)\<rparr>"

definition get_global_range :: "nd_range \<Rightarrow> range" where
  "get_global_range r = GlobalRange r"

definition get_local_range :: "nd_range \<Rightarrow> range" where
  "get_local_range r = LocalRange r"

definition get_group_range :: "nat \<Rightarrow> nd_range \<Rightarrow> fault + range" where
  "get_group_range dims r = range_div dims (GlobalRange r) (LocalRange r)"

definition get_offset :: "nd_range \<Rightarrow> id" where
  "get_offset r = Offset r"

record item =
  GlobalIndex :: id
  LocalIndex :: id
  NDRange :: nd_range

text \<open>
  \<^verbatim>\<open>item(nd_range<dims> ndr) : NDRange(ndr) {}\<close>: both indices are
  default-constructed.
\<close>

definition make_item :: "nat \<Rightarrow> nd_range \<Rightarrow> item" where
  "make_item dims ndr =
     \<lparr>GlobalIndex = range_default dims, LocalIndex = range_default dims, NDRange = ndr\<rparr>"

definition get_global :: "item \<Rightarrow> id" where
  "get_global it = GlobalIndex it"

definition get_local :: "item \<Rightarrow> id" where
  "get_local it = LocalIndex it"

definition set_local :: "id \<Rightarrow> item \<Rightarrow> item" where
  "set_local idx it = it\<lparr>LocalIndex := idx\<rparr>"

definition set_global :: "id \<Rightarrow> item \<Rightarrow> item" where
  "set_global idx it = it\<lparr>GlobalIndex := idx\<rparr>"

section \<open>The recursive dimensional iterator\<close>

text \<open>
  The loop of \<^verbatim>\<open>ParallelForIterate\<close>,
  \<^verbatim>\<open>for (index _sycl_index = 0, _sycl_end = ...; _sycl_index < _sycl_end; _sycl_index++)\<close>,
  started at \<open>i\<close>. The comparison is signed; the increment cannot overflow because
  it only happens below \<open>e\<close>. A body that faults ends the loop.
\<close>

function for_index ::
  "intptr_t \<Rightarrow> intptr_t \<Rightarrow> (intptr_t \<Rightarrow> 'st \<Rightarrow> fault + 'st) \<Rightarrow> 'st \<Rightarrow> fault + 'st" where
  "for_index i e body st =
     (if sint i < sint e then
        (case body i st of
           Inl u \<Rightarrow> Inl u
         | Inr st' \<Rightarrow> for_index (i + 1) e body st')
      else Inr st)"
  by pat_completeness auto
termination
proof (relation "measure (\<lambda>(i, e, body, st). nat (sint e - sint i))", goal_cases)
  case 1
  show ?case by simp
next
  case (2 i e body st st')
  have "sint e < 2 ^ 63" using sint_lt [of e] by simp
  moreover have "- (2 ^ 63) \<le> sint i" using sint_ge [of i] by simp
  ultimately have "signed_take_bit 63 (sint i + 1) = sint i + 1"
    using 2(1) by (intro signed_take_bit_int_eq_self) auto
  then have "sint (i + 1) = sint i + 1" by (simp add: sint_word_add)
  then show ?case using 2(1) by simp
qed

text \<open>
  \<^verbatim>\<open>ParallelForIterate<level, Range, ParallelForFunctor, Id>\<close>, by recursion on the
  template parameter \<open>level\<close>; \<open>D\<close> is \<^verbatim>\<open>Range::dimensionality\<close>. The coordinate
  buffer \<open>index\<close> is one object shared by the whole recursion (it is passed by
  reference), so it is threaded through together with the state \<open>st\<close> that the
  functor works on. At level \<open>0\<close> the functor is called on the buffer itself,
  \<^verbatim>\<open>f(index)\<close> with \<^verbatim>\<open>Id &index\<close>: a functor whose parameter is a reference can
  write to it. A functor therefore returns the buffer as it leaves it, together
  with the new state.
  \<^verbatim>\<open>Range::dimensionality - level\<close> is an unsigned difference: for
  \<open>level > D\<close> it wraps to a subscript beyond every vector.
\<close>

definition slot :: "nat \<Rightarrow> nat \<Rightarrow> fault + nat" where
  "slot D level = (if level \<le> D then Inr (D - level) else Inl OutOfRange)"

primrec ParallelForIterate ::
  "nat \<Rightarrow> nat \<Rightarrow> range \<Rightarrow> (id \<Rightarrow> 'st \<Rightarrow> fault + id \<times> 'st) \<Rightarrow> id \<times> 'st
     \<Rightarrow> fault + id \<times> 'st" where
  "ParallelForIterate 0 D r f = (\<lambda>(index, st). f index st)"
| "ParallelForIterate (Suc level) D r f =
     (\<lambda>(index, st).
        case slot D (Suc level) of
          Inl e \<Rightarrow> Inl e
        | Inr k \<Rightarrow>
           (case vector_at r k of
              Inl e \<Rightarrow> Inl e
            | Inr sycl_end \<Rightarrow>
               for_index 0 sycl_end
                 (\<lambda>sycl_index (index, st).
                    if k < length index
                    then ParallelForIterate level D r f (index[k := sycl_index], st)
                    else Inl OutOfRange)
                 (index, st)))"

section \<open>Dispatch entry points\<close>

text \<open>
  A kernel is a functor that works on some state \<open>'st\<close> of the caller (the
  buffers it writes, a log of its calls). The launches call it on an object of
  their own, the coordinate buffer or the item, as an lvalue: a kernel is a
  function from that object and the state before to the object as the kernel
  leaves it and the state after. A kernel that takes its parameter by value
  leaves the object as it found it.
\<close>

definition by_value :: "('a \<Rightarrow> 'st \<Rightarrow> 'st) \<Rightarrow> 'a \<Rightarrow> 'st \<Rightarrow> 'a \<times> 'st" where
  "by_value k x st = (x, k x st)"

text \<open>
  \<^verbatim>\<open>parallel_for(range<Dimensions> r, ParallelForFunctor f)\<close>, the sequential
  branch (no \<^verbatim>\<open>_OPENMP\<close>).
\<close>

definition parallel_for ::
  "nat \<Rightarrow> range \<Rightarrow> (id \<Rightarrow> 'st \<Rightarrow> id \<times> 'st) \<Rightarrow> 'st \<Rightarrow> fault + 'st" where
  "parallel_for D r f st =
     (case ParallelForIterate D D r (\<lambda>i s. Inr (f i s)) (range_default D, st) of
        Inl e \<Rightarrow> Inl e
      | Inr (index, st') \<Rightarrow> Inr st')"

text \<open>
  \<^verbatim>\<open>parallel_for(nd_range<Dimensions> r, ParallelForFunctor f)\<close>. Its two lambdas
  capture \<^verbatim>\<open>Index\<close>, \<^verbatim>\<open>Group\<close>, \<^verbatim>\<open>Local\<close>, \<^verbatim>\<open>LocalRange\<close> and \<^verbatim>\<open>f\<close> by reference.
  \<^verbatim>\<open>Group\<close> and \<^verbatim>\<open>Local\<close> are the coordinate buffers of the outer and the inner
  iteration, so what a lambda reads from them is the coordinate it is called with;
  the parameter of each lambda is a copy, so the lambdas leave the buffers as
  they are. The kernel is called on \<^verbatim>\<open>Index\<close> itself.
  \<^verbatim>\<open>Index\<close> lives across all calls, and so does \<^verbatim>\<open>Local\<close>, which is not reset
  between two groups: both belong to the state of the outer iteration.
  \<^verbatim>\<open>display()\<close> only writes to \<^verbatim>\<open>std::clog\<close> and is left out.
\<close>

definition reconstructItem ::
  "nat \<Rightarrow> range \<Rightarrow> (item \<Rightarrow> 'st \<Rightarrow> item \<times> 'st) \<Rightarrow> id \<Rightarrow> id \<Rightarrow> item \<times> 'st
     \<Rightarrow> fault + id \<times> item \<times> 'st" where
  "reconstructItem D local_range f grp loc =
     (\<lambda>(Index, st).
        case range_times D local_range grp of
          Inl e \<Rightarrow> Inl e
        | Inr scaled \<Rightarrow>
           (case range_plus D loc scaled of
              Inl e \<Rightarrow> Inl e
            | Inr glob \<Rightarrow>
               Inr (loc, f (set_global glob (set_local loc Index)) st)))"

definition iterateInWorkGroup ::
  "nat \<Rightarrow> range \<Rightarrow> (item \<Rightarrow> 'st \<Rightarrow> item \<times> 'st) \<Rightarrow> id \<Rightarrow> id \<times> item \<times> 'st
     \<Rightarrow> fault + id \<times> id \<times> item \<times> 'st" where
  "iterateInWorkGroup D local_range f grp =
     (\<lambda>(loc, Index, st).
        case ParallelForIterate D D local_range (reconstructItem D local_range f grp)
               (loc, (Index, st)) of
          Inl e \<Rightarrow> Inl e
        | Inr (loc', Index', st') \<Rightarrow> Inr (grp, (loc', Index', st')))"

definition parallel_for_nd ::
  "nat \<Rightarrow> nd_range \<Rightarrow> (item \<Rightarrow> 'st \<Rightarrow> item \<times> 'st) \<Rightarrow> 'st \<Rightarrow> fault + 'st" where
  "parallel_for_nd D r f st =
     (let Index = make_item D r;
          grp = range_default D
      in case get_group_range D r of
           Inl e \<Rightarrow> Inl e
         | Inr group_range \<Rightarrow>
            (let loc = range_default D;
                 local_range = get_local_range r
             in case ParallelForIterate D D group_range
                       (iterateInWorkGroup D local_range f) (grp, (loc, Index, st)) of
                  Inl e \<Rightarrow> Inl e
                | Inr (grp', (loc', Index', st')) \<Rightarrow> Inr st'))"

text \<open>
  \<^verbatim>\<open>parallel_for(Range r, Program p, ParallelForFunctor f)\<close>, at a \<^verbatim>\<open>range\<close> and
  at an \<^verbatim>\<open>nd_range\<close>: overload resolution of the inner call picks the launch of
  the same kind.
\<close>

definition parallel_for_program ::
  "nat \<Rightarrow> range \<Rightarrow> 'program \<Rightarrow> (id \<Rightarrow> 'st \<Rightarrow> id \<times> 'st) \<Rightarrow> 'st \<Rightarrow> fault + 'st" where
  "parallel_for_program D r p f st = parallel_for D r f st"

definition parallel_for_nd_program ::
  "nat \<Rightarrow> nd_range \<Rightarrow> 'program \<Rightarrow> (item \<Rightarrow> 'st \<Rightarrow> item \<times> 'st) \<Rightarrow> 'st
     \<Rightarrow> fault + 'st" where
  "parallel_for_nd_program D r p f st = parallel_for_nd D r f st"

text \<open>\<^verbatim>\<open>parallel_for_workgroup\<close> and \<^verbatim>\<open>parallel_for_workitem\<close>: empty bodies.\<close>

definition parallel_for_workgroup :: "'range \<Rightarrow> 'kernel \<Rightarrow> 'st \<Rightarrow> 'st" where
  "parallel_for_workgroup r f st = st"

definition parallel_for_workitem :: "'range \<Rightarrow> 'kernel \<Rightarrow> 'st \<Rightarrow> 'st" where
  "parallel_for_workitem r f st = st"

section \<open>Storage\<close>

text \<open>
  Buffers and accessors share storage through pointers, so the storage is explicit:
  a heap is the list of the arrays allocated so far, caller-owned arrays included,
  and a pointer names an array and a position in it. An allocation appends a new
  array; memory is unbounded, so it always succeeds. Reading or writing through a
  pointer that does not point at an element is undefined.
\<close>

type_synonym 'a heap = "'a list list"

record pointer =
  block :: nat
  pos :: nat

definition heap_read :: "'a heap \<Rightarrow> pointer \<Rightarrow> fault + 'a" where
  "heap_read h p =
     (if block p < length h \<and> pos p < length (h ! block p)
      then Inr (h ! block p ! pos p) else Inl OutOfRange)"

definition heap_write :: "'a heap \<Rightarrow> pointer \<Rightarrow> 'a \<Rightarrow> fault + 'a heap" where
  "heap_write h p v =
     (if block p < length h \<and> pos p < length (h ! block p)
      then Inr (h[block p := (h ! block p)[pos p := v]]) else Inl OutOfRange)"

definition allocate :: "'a heap \<Rightarrow> 'a list \<Rightarrow> 'a heap \<times> pointer" where
  "allocate h elems = (h @ [elems], \<lparr>block = length h, pos = 0\<rparr>)"

section \<open>Multi-dimensional views\<close>

text \<open>
  \<^verbatim>\<open>boost::multi_array_ref<T, N>\<close> is not part of the header; it is modelled by
  what Boost.MultiArray documents for the default storage order: a view is a base
  pointer and \<open>N\<close> extents, the stride of a dimension is the product of the
  extents after it (row-major, index bases zero), and with range checking on
  (\<^verbatim>\<open>BOOST_DISABLE_ASSERTS\<close> is not defined by the header) every index is asserted
  to lie in its extent before it is used. Extents, strides and offsets are
  \<^verbatim>\<open>size_t\<close> values in Boost and natural numbers here.
\<close>

record multi_array_ref =
  base :: pointer
  extent_list :: "nat list"

definition num_elements :: "multi_array_ref \<Rightarrow> nat" where
  "num_elements A = prod_list (extent_list A)"

definition c_strides :: "nat list \<Rightarrow> nat list" where
  "c_strides extents = map (\<lambda>n. prod_list (drop (Suc n) extents)) [0..<length extents]"

text \<open>
  The extents of a view built from a range: Boost copies the first \<open>N\<close>
  components, each converted from \<^verbatim>\<open>intptr_t\<close> to \<^verbatim>\<open>size_t\<close>.
\<close>

definition extents_of_range :: "nat \<Rightarrow> range \<Rightarrow> fault + nat list" where
  "extents_of_range N r = (if N \<le> length r then Inr (map unat (take N r)) else Inl OutOfRange)"

text \<open>
  The two assertions on an index \<open>idx\<close> of a dimension of extent \<open>e\<close>:
  \<^verbatim>\<open>idx - index_base >= 0\<close> and \<^verbatim>\<open>size_type(idx - index_base) < extent\<close>.
\<close>

definition index_in_extent :: "intptr_t \<Rightarrow> nat \<Rightarrow> bool" where
  "index_in_extent idx e \<longleftrightarrow> 0 \<le> sint idx \<and> unat idx < e"

text \<open>
  \<^verbatim>\<open>A(indices)\<close>: the element at a collection of \<open>N\<close> indices. It reads
  \<^verbatim>\<open>indices[0]\<close> to \<^verbatim>\<open>indices[N-1]\<close>, asserts each, and adds up index times stride.
\<close>

definition access_element :: "multi_array_ref \<Rightarrow> intptr_t list \<Rightarrow> fault + pointer" where
  "access_element A indices =
     (let N = length (extent_list A) in
      if length indices < N then Inl OutOfRange
      else if \<not> list_all (\<lambda>n. index_in_extent (indices ! n) (extent_list A ! n)) [0..<N]
      then Inl AssertionFailure
      else Inr \<lparr>block = block (base A),
                pos = pos (base A)
                  + sum_list (map (\<lambda>n. unat (indices ! n) * c_strides (extent_list A) ! n) [0..<N])\<rparr>)"

text \<open>
  \<^verbatim>\<open>A[idx]\<close>: for \<open>N = 1\<close> the element at \<open>idx\<close>; for \<open>N > 1\<close> the sub-array of the
  remaining \<open>N - 1\<close> dimensions that starts at \<open>idx\<close> times the first stride.
\<close>

datatype reference = Element pointer | Sub_array multi_array_ref

definition subscript :: "multi_array_ref \<Rightarrow> intptr_t \<Rightarrow> fault + reference" where
  "subscript A idx =
     (case extent_list A of
        [] \<Rightarrow> Inl OutOfRange
      | e # es \<Rightarrow>
         if \<not> index_in_extent idx e then Inl AssertionFailure
         else
           (let newbase = \<lparr>block = block (base A),
                           pos = pos (base A) + unat idx * c_strides (e # es) ! 0\<rparr>
            in if es = [] then Inr (Element newbase)
               else Inr (Sub_array \<lparr>base = newbase, extent_list = es\<rparr>)))"

text \<open>The elements of a view in storage order, read from the heap.\<close>

definition elements :: "'a heap \<Rightarrow> multi_array_ref \<Rightarrow> fault + 'a list" where
  "elements h A =
     (if block (base A) < length h
         \<and> pos (base A) + num_elements A \<le> length (h ! block (base A))
      then Inr (take (num_elements A) (drop (pos (base A)) (h ! block (base A))))
      else Inl OutOfRange)"

text \<open>
  \<^verbatim>\<open>multi_array_ref::assign(begin, end)\<close>:
  \<^verbatim>\<open>while (in_iter != end && copy_count < num_elements_) { *out_iter++ = *in_iter++; copy_count++; }\<close>
\<close>

function assign_loop ::
  "'a heap \<Rightarrow> pointer \<Rightarrow> pointer \<Rightarrow> pointer \<Rightarrow> nat \<Rightarrow> nat \<Rightarrow> fault + 'a heap" where
  "assign_loop h out_iter in_iter end_iter copy_count n =
     (if in_iter \<noteq> end_iter \<and> copy_count < n then
        (case heap_read h in_iter of
           Inl e \<Rightarrow> Inl e
         | Inr v \<Rightarrow>
            (case heap_write h out_iter v of
               Inl e \<Rightarrow> Inl e
             | Inr h' \<Rightarrow>
                assign_loop h' (out_iter\<lparr>pos := pos out_iter + 1\<rparr>)
                  (in_iter\<lparr>pos := pos in_iter + 1\<rparr>) end_iter (Suc copy_count) n))
      else Inr h)"
  by pat_completeness auto
termination
  by (relation "measure (\<lambda>(h, out_iter, in_iter, end_iter, copy_count, n). n - copy_count)") auto

definition assign :: "'a heap \<Rightarrow> multi_array_ref \<Rightarrow> pointer \<Rightarrow> pointer \<Rightarrow> fault + 'a heap" where
  "assign h A begin_iter end_iter = assign_loop h (base A) begin_iter end_iter 0 (num_elements A)"

section \<open>Buffers and accessors\<close>

text \<open>
  \<^verbatim>\<open>struct buffer\<close>: the owned array \<^verbatim>\<open>Allocation\<close> (\<open>None\<close> for a
  default-constructed \<^verbatim>\<open>multi_array\<close>, which holds no element), the view \<^verbatim>\<open>Access\<close>
  and the flag \<^verbatim>\<open>ReadOnly\<close>. A \<^verbatim>\<open>bool\<close> member that no initializer and no
  assignment touches has an indeterminate value: \<open>None\<close>.

  Every constructor runs on a heap and returns the heap after it together with
  the buffer. \<open>T_init\<close> is the value-initialized element \<^verbatim>\<open>T()\<close> with which a new
  \<^verbatim>\<open>multi_array\<close> fills its storage.
\<close>

record buffer =
  Allocation :: "multi_array_ref option"
  Access :: multi_array_ref
  ReadOnly :: "bool option"

text \<open>\<^verbatim>\<open>buffer(range<dimensions> r)\<close>\<close>

definition buffer_from_range :: "nat \<Rightarrow> 'a \<Rightarrow> 'a heap \<Rightarrow> range \<Rightarrow> fault + 'a heap \<times> buffer" where
  "buffer_from_range dimensions T_init h r =
     (case extents_of_range dimensions r of
        Inl e \<Rightarrow> Inl e
      | Inr ext \<Rightarrow>
         (let (h', p) = allocate h (replicate (prod_list ext) T_init);
              A = \<lparr>base = p, extent_list = ext\<rparr>
          in Inr (h', \<lparr>Allocation = Some A, Access = A, ReadOnly = Some False\<rparr>)))"

text \<open>\<^verbatim>\<open>buffer(T * host_data, range<dimensions> r)\<close>\<close>

definition buffer_from_host :: "nat \<Rightarrow> 'a heap \<Rightarrow> pointer \<Rightarrow> range \<Rightarrow> fault + 'a heap \<times> buffer" where
  "buffer_from_host dimensions h host_data r =
     (case extents_of_range dimensions r of
        Inl e \<Rightarrow> Inl e
      | Inr ext \<Rightarrow>
         Inr (h, \<lparr>Allocation = None, Access = \<lparr>base = host_data, extent_list = ext\<rparr>,
                  ReadOnly = Some False\<rparr>))"

text \<open>
  \<^verbatim>\<open>buffer(const T * host_data, range<dimensions> r)\<close> with the initializers
  \<^verbatim>\<open>Access(host_data, r), ReadOnly(true)\<close>. The constructors of
  \<^verbatim>\<open>multi_array_ref<T, N>\<close> take a \<^verbatim>\<open>T *\<close>, to which a \<^verbatim>\<open>const T *\<close> does not
  convert; and for a \<^verbatim>\<open>T\<close> that is itself const the constructor has the
  signature of the one before. No use of this constructor compiles.
\<close>

definition buffer_from_const_host ::
  "nat \<Rightarrow> 'a heap \<Rightarrow> pointer \<Rightarrow> range \<Rightarrow> fault + 'a heap \<times> buffer" where
  "buffer_from_const_host dimensions h host_data r = Inl IllFormed"

text \<open>
  \<^verbatim>\<open>buffer(T * start_iterator, T * end_iterator)\<close>, one-dimensional by its use of
  \<^verbatim>\<open>boost::extents[n]\<close>. \<^verbatim>\<open>std::distance\<close> is defined for two pointers into one
  array; a negative distance becomes an extent by conversion to \<^verbatim>\<open>size_t\<close>. The
  constructor has no initializer for \<^verbatim>\<open>ReadOnly\<close> and its body does not assign it.
\<close>

definition distance :: "pointer \<Rightarrow> pointer \<Rightarrow> fault + int" where
  "distance p q =
     (if block p = block q then Inr (int (pos q) - int (pos p)) else Inl OutOfRange)"

definition buffer_from_iterators ::
  "'a \<Rightarrow> 'a heap \<Rightarrow> pointer \<Rightarrow> pointer \<Rightarrow> fault + 'a heap \<times> buffer" where
  "buffer_from_iterators T_init h start_iterator end_iterator =
     (case distance start_iterator end_iterator of
        Inl e \<Rightarrow> Inl e
      | Inr d \<Rightarrow>
         (let (h1, p) = allocate h (replicate (nat (d mod 2 ^ 64)) T_init);
              A = \<lparr>base = p, extent_list = [nat (d mod 2 ^ 64)]\<rparr>
          in case assign h1 A start_iterator end_iterator of
               Inl e \<Rightarrow> Inl e
             | Inr h2 \<Rightarrow> Inr (h2, \<lparr>Allocation = Some A, Access = A, ReadOnly = None\<rparr>)))"

text \<open>
  \<^verbatim>\<open>buffer(buffer<T, dimensions> &b)\<close>: \<^verbatim>\<open>Allocation(b.Access)\<close> is the
  \<^verbatim>\<open>multi_array\<close> constructor from a view, which allocates an array of the shape
  of the view and copies its elements.
\<close>

definition buffer_copy :: "'a heap \<Rightarrow> buffer \<Rightarrow> fault + 'a heap \<times> buffer" where
  "buffer_copy h b =
     (case elements h (Access b) of
        Inl e \<Rightarrow> Inl e
      | Inr elems \<Rightarrow>
         (let (h', p) = allocate h elems;
              A = \<lparr>base = p, extent_list = extent_list (Access b)\<rparr>
          in Inr (h', \<lparr>Allocation = Some A, Access = A, ReadOnly = Some False\<rparr>)))"

text \<open>
  \<^verbatim>\<open>struct accessor\<close> holds a copy of the view of its buffer;
  \<^verbatim>\<open>buffer::get_access\<close> builds one from \<^verbatim>\<open>*this\<close>. The access mode and target are
  template parameters that nothing reads.
\<close>

record accessor =
  Array :: multi_array_ref

definition get_access :: "buffer \<Rightarrow> accessor" where
  "get_access b = \<lparr>Array = Access b\<rparr>"

text \<open>
  The three \<^verbatim>\<open>operator[]\<close> of the accessor, each declared to return \<^verbatim>\<open>auto &\<close>.
  \<^verbatim>\<open>operator[](size_t Index)\<close> returns \<^verbatim>\<open>Array[Index]\<close>, the conversion of \<^verbatim>\<open>Index\<close>
  to Boost's signed index keeping the bits. In one dimension that is an element.
  In two or three dimensions Boost returns the sub-array by value, to which the
  reference \<^verbatim>\<open>auto &\<close> cannot bind: a call of the operator is ill-formed there.
  \<^verbatim>\<open>operator[](id)\<close> returns \<^verbatim>\<open>Array(Index)\<close>; \<^verbatim>\<open>operator[](item)\<close> returns
  \<^verbatim>\<open>Array(Index.get_global())\<close>; both are elements in every dimension.
\<close>

definition subscript_size_t :: "accessor \<Rightarrow> 64 word \<Rightarrow> fault + reference" where
  "subscript_size_t acc Index =
     (if 1 < length (extent_list (Array acc)) then Inl IllFormed
      else subscript (Array acc) Index)"

definition subscript_id :: "accessor \<Rightarrow> id \<Rightarrow> fault + pointer" where
  "subscript_id acc Index = access_element (Array acc) Index"

definition subscript_item :: "accessor \<Rightarrow> item \<Rightarrow> fault + pointer" where
  "subscript_item acc Index = access_element (Array acc) (get_global Index)"

text \<open>Reading and assigning through the reference that \<^verbatim>\<open>acc[Index]\<close> returns.\<close>

definition accessor_read :: "'a heap \<Rightarrow> accessor \<Rightarrow> id \<Rightarrow> fault + 'a" where
  "accessor_read h acc Index =
     (case subscript_id acc Index of Inl e \<Rightarrow> Inl e | Inr p \<Rightarrow> heap_read h p)"

definition accessor_write :: "'a heap \<Rightarrow> accessor \<Rightarrow> id \<Rightarrow> 'a \<Rightarrow> fault + 'a heap" where
  "accessor_write h acc Index v =
     (case subscript_id acc Index of Inl e \<Rightarrow> Inl e | Inr p \<Rightarrow> heap_write h p v)"

section \<open>The specification's side\<close>

text \<open>
  What the specification speaks of, written down independently of the code: the
  sequence of loop values, the Cartesian product of a size vector, the box of
  in-range coordinates, the item expected for a group and a local coordinate, and
  the row-major flattening. The remaining definitions name notions that the
  proofs use.
\<close>

text \<open>The values \<open>i, i + 1, \<dots>\<close> below \<open>e\<close>, in order: the half-open interval \<open>[i, e)\<close>.\<close>

function index_seq :: "intptr_t \<Rightarrow> intptr_t \<Rightarrow> intptr_t list" where
  "index_seq i e = (if sint i < sint e then i # index_seq (i + 1) e else [])"
  by pat_completeness auto
termination
proof (relation "measure (\<lambda>(i, e). nat (sint e - sint i))", goal_cases)
  case 1
  show ?case by simp
next
  case (2 i e)
  have "sint e < 2 ^ 63" using sint_lt [of e] by simp
  moreover have "- (2 ^ 63) \<le> sint i" using sint_ge [of i] by simp
  ultimately have "signed_take_bit 63 (sint i + 1) = sint i + 1"
    using 2 by (intro signed_take_bit_int_eq_self) auto
  then have "sint (i + 1) = sint i + 1" by (simp add: sint_word_add)
  then show ?case using 2 by simp
qed

declare index_seq.simps [simp del]

text \<open>
  The Cartesian product \<open>[0, S[0]) \<times> \<dots> \<times> [0, S[D-1])\<close> of the specification,
  listed with dimension \<open>0\<close> varying slowest.
\<close>

fun cartesian :: "range \<Rightarrow> id list" where
  "cartesian [] = [[]]"
| "cartesian (e # es) = concat (map (\<lambda>k. map ((#) k) (cartesian es)) (index_seq 0 e))"

text \<open>Calling a functor on the elements of a list, one after the other.\<close>

fun run_all :: "('a \<Rightarrow> 'st \<Rightarrow> fault + 'st) \<Rightarrow> 'a list \<Rightarrow> 'st \<Rightarrow> fault + 'st" where
  "run_all f [] st = Inr st"
| "run_all f (x # xs) st = (case f x st of Inl e \<Rightarrow> Inl e | Inr st' \<Rightarrow> run_all f xs st')"

text \<open>The result of an iteration that ended with the coordinate buffer \<open>index\<close>.\<close>

definition with_index :: "id \<Rightarrow> fault + 'st \<Rightarrow> fault + id \<times> 'st" where
  "with_index index res = (case res of Inl e \<Rightarrow> Inl e | Inr st \<Rightarrow> Inr (index, st))"

text \<open>
  A functor that takes the coordinate by value leaves the buffer as it found it;
  and what any functor does to the state, whatever it does to the buffer.
\<close>

definition keep :: "(id \<Rightarrow> 'st \<Rightarrow> fault + 'st) \<Rightarrow> id \<Rightarrow> 'st \<Rightarrow> fault + id \<times> 'st" where
  "keep f index st = with_index index (f index st)"

definition dropped :: "(id \<Rightarrow> 'st \<Rightarrow> fault + id \<times> 'st) \<Rightarrow> id \<Rightarrow> 'st \<Rightarrow> fault + 'st" where
  "dropped F index st = (case F index st of Inl e \<Rightarrow> Inl e | Inr (index', st') \<Rightarrow> Inr st')"

text \<open>
  A kernel that, besides what it does, records in order the objects it is called
  on, as it finds them.
\<close>

definition logged :: "('a \<Rightarrow> 'st \<Rightarrow> 'a \<times> 'st) \<Rightarrow> 'a \<Rightarrow> 'a list \<times> 'st \<Rightarrow> 'a \<times> 'a list \<times> 'st" where
  "logged f x = (\<lambda>(log, st). case f x st of (x', st') \<Rightarrow> (x', (log @ [x], st')))"

text \<open>The coordinates \<open>c\<close> with \<open>0 \<le> c[i] < S[i]\<close> in every dimension.\<close>

definition in_box :: "range \<Rightarrow> id \<Rightarrow> bool" where
  "in_box S c \<longleftrightarrow> length c = length S \<and> (\<forall>i<length S. 0 \<le> sint (c ! i) \<and> sint (c ! i) < sint (S ! i))"

text \<open>Coordinates completed on the left by the slots that outer loops have set.\<close>

definition prefixed :: "id \<Rightarrow> id list \<Rightarrow> id list" where
  "prefixed p cs = map (\<lambda>c. p @ c) cs"

text \<open>
  The item that the specification expects for the group coordinate \<open>G\<close> and the
  local coordinate \<open>L\<close>: \<open>global = L + LocalSize * G\<close>, \<open>local = L\<close>. The sum and
  the product are those of the machine type here; that they are the sum and the
  product of the integers is part of what is proved about a launch.
\<close>

definition reconstructed :: "nat \<Rightarrow> nd_range \<Rightarrow> id \<Rightarrow> id \<Rightarrow> item" where
  "reconstructed D r G L =
     \<lparr>GlobalIndex = map (\<lambda>i. L ! i + LocalRange r ! i * G ! i) [0..<D],
      LocalIndex = L,
      NDRange = r\<rparr>"

text \<open>The items of a grouped launch: every group in turn, every local coordinate in it.\<close>

definition grouped_visits :: "nat \<Rightarrow> nd_range \<Rightarrow> range \<Rightarrow> item list" where
  "grouped_visits D r group_range =
     concat (map (\<lambda>G. map (reconstructed D r G) (cartesian (LocalRange r))) (cartesian group_range))"

text \<open>
  The pairs of a group coordinate and a local coordinate in the order of a grouped
  launch, and what the launch does at one of them: it sets the two coordinates of
  its item and calls the kernel on the item.
\<close>

definition group_pairs :: "range \<Rightarrow> range \<Rightarrow> (id \<times> id) list" where
  "group_pairs group_range local_range =
     concat (map (\<lambda>G. map (Pair G) (cartesian local_range)) (cartesian group_range))"

definition visit ::
  "nat \<Rightarrow> nd_range \<Rightarrow> (item \<Rightarrow> 'st \<Rightarrow> item \<times> 'st) \<Rightarrow> id \<times> id \<Rightarrow> item \<times> 'st \<Rightarrow> item \<times> 'st" where
  "visit D r f = (\<lambda>(G, L) (Index, st).
     f (set_global (map (\<lambda>i. L ! i + LocalRange r ! i * G ! i) [0..<D]) (set_local L Index)) st)"

text \<open>A launch whose sizes divide exactly and whose arithmetic stays in range.\<close>

definition exact_launch :: "nat \<Rightarrow> nd_range \<Rightarrow> bool" where
  "exact_launch D r \<longleftrightarrow>
     length (GlobalRange r) = D \<and> length (LocalRange r) = D \<and>
     (\<forall>i<D. 0 < sint (LocalRange r ! i)
        \<and> sint (LocalRange r ! i) dvd sint (GlobalRange r ! i)
        \<and> sint (GlobalRange r ! i) + sint (LocalRange r ! i) < 2 ^ 63)"

text \<open>
  The group range of an exact launch: in every dimension either
  \<open>gr[i] * LocalSize[i] = GlobalSize[i]\<close>, or the global size is negative and there
  is no group.
\<close>

definition group_grid :: "nat \<Rightarrow> nd_range \<Rightarrow> range \<Rightarrow> bool" where
  "group_grid D r gr \<longleftrightarrow>
     length gr = D \<and> length (GlobalRange r) = D \<and> length (LocalRange r) = D \<and>
     (\<forall>i<D. 0 < sint (LocalRange r ! i)
        \<and> (sint (gr ! i) * sint (LocalRange r ! i) = sint (GlobalRange r ! i)
           \<or> sint (gr ! i) \<le> 0 \<and> sint (GlobalRange r ! i) < 0))"

text \<open>A group range that tiles the global range: \<open>gr[i] * LocalSize[i] = GlobalSize[i]\<close>.\<close>

definition tiles :: "nat \<Rightarrow> nd_range \<Rightarrow> range \<Rightarrow> bool" where
  "tiles D r gr \<longleftrightarrow>
     length gr = D \<and> length (GlobalRange r) = D \<and> length (LocalRange r) = D \<and>
     (\<forall>i<D. 0 < sint (LocalRange r ! i)
        \<and> sint (gr ! i) * sint (LocalRange r ! i) = sint (GlobalRange r ! i))"

text \<open>
  The row-major flattening of the specification, in Horner form:
  \<open>(\<dots>(c[0] * S[1] + c[1]) * S[2] + \<dots>) + c[D-1]\<close>.
\<close>

definition row_major :: "nat list \<Rightarrow> nat list \<Rightarrow> nat" where
  "row_major shape c = fold (\<lambda>(s, x) acc. acc * s + x) (zip shape c) 0"

text \<open>The offset as Boost adds it up: index times stride, dimension by dimension.\<close>

definition stride_sum :: "nat list \<Rightarrow> nat list \<Rightarrow> nat" where
  "stride_sum shape c = sum_list (map (\<lambda>n. c ! n * c_strides shape ! n) [0..<length shape])"

section \<open>Properties of the range algebra\<close>

lemma sint_succ_below:
  fixes i e :: intptr_t
  assumes "sint i < sint e"
  shows "sint (i + 1) = sint i + 1"
proof -
  have "sint e < 2 ^ 63" using sint_lt [of e] by simp
  moreover have "- (2 ^ 63) \<le> sint i" using sint_ge [of i] by simp
  ultimately have "signed_take_bit 63 (sint i + 1) = sint i + 1"
    using assms by (intro signed_take_bit_int_eq_self) auto
  then show ?thesis by (simp add: sint_word_add)
qed

declare for_index.simps [simp del]
declare elementwise.simps [simp del]
declare assign_loop.simps [simp del]

lemma sint_checked:
  "representable v \<Longrightarrow> checked v = Inr (word_of_int v) \<and> sint (word_of_int v :: intptr_t) = v"
  by (simp add: checked_def representable_def sint_sbintrunc' signed_take_bit_int_eq_self)

text \<open>
  The loop of the element-wise operators in closed form: when every component
  operation from \<open>i\<close> on is defined, the loop keeps the first \<open>i\<close> components of
  \<open>result\<close> and fills in the others.
\<close>

lemma elementwise_closed:
  assumes "\<forall>j. i \<le> j \<and> j < D \<longrightarrow> j < length a \<and> j < length b \<and> opr (a ! j) (b ! j) = Inr (g j)"
    and "length result = D" and "i \<le> D"
  shows "elementwise D opr a b i result = Inr (take i result @ map g [i..<D])"
  using assms
proof (induction D opr a b i result rule: elementwise.induct)
  case (1 D opr a b i result)
  show ?case
  proof (cases "i < D")
    case True
    with "1.prems" have va: "vector_at a i = Inr (a ! i)" and vb: "vector_at b i = Inr (b ! i)"
      and vo: "opr (a ! i) (b ! i) = Inr (g i)"
      by (auto simp: vector_at_def)
    have "elementwise D opr a b (Suc i) (result[i := g i])
            = Inr (take (Suc i) (result[i := g i]) @ map g [Suc i..<D])"
      using "1.IH" [OF True va vb vo] "1.prems" True by auto
    moreover have "take (Suc i) (result[i := g i]) = take i result @ [g i]"
      using True "1.prems"(2) by (simp add: take_Suc_conv_app_nth)
    moreover have "[i..<D] = i # [Suc i..<D]"
      using True by (simp add: upt_conv_Cons)
    ultimately show ?thesis
      using True va vb vo by (subst elementwise.simps) simp
  next
    case False
    with "1.prems" have "i = D" by simp
    then show ?thesis using "1.prems" by (subst elementwise.simps) simp
  qed
qed

lemma elementwise_from_zero:
  assumes "\<forall>j<D. j < length a \<and> j < length b \<and> opr (a ! j) (b ! j) = Inr (g j)"
  shows "elementwise D opr a b 0 (range_default D) = Inr (map g [0..<D])"
  using elementwise_closed [of 0 D a b opr g "range_default D"] assms
  by (simp add: range_default_def)

lemma div_le_self_int:
  fixes n y :: int
  assumes "0 \<le> n" and "0 < y"
  shows "n div y \<le> n"
  using zdiv_mono2 [of n 1 y] assms by simp

lemma div_up_nonneg:
  assumes "0 < sint y" and "0 \<le> sint x" and "sint x + sint y < 2 ^ 63"
  shows "div_up x y = Inr (word_of_int ((sint x + sint y - 1) div sint y))"
    and "sint (word_of_int ((sint x + sint y - 1) div sint y) :: intptr_t)
           = (sint x + sint y - 1) div sint y"
proof -
  let ?n = "sint x + sint y - 1"
  have r1: "representable (sint x + sint y)"
    using assms by (simp add: representable_def)
  have r2: "representable ?n"
    using assms by (simp add: representable_def)
  have n0: "0 \<le> ?n" using assms by simp
  have q: "?n sdiv sint y = ?n div sint y"
    using n0 assms(1) by (simp add: signed_divide_int_def sgn_if)
  have "0 \<le> ?n div sint y" using n0 assms(1) by (simp add: pos_imp_zdiv_nonneg_iff)
  moreover have "?n div sint y \<le> ?n" using n0 assms(1) by (rule div_le_self_int)
  ultimately have r3: "representable (?n div sint y)"
    using r2 by (simp add: representable_def)
  have y0: "y \<noteq> 0" using assms(1) by auto
  show "div_up x y = Inr (word_of_int (?n div sint y))"
    using sint_checked [OF r1] sint_checked [OF r2] sint_checked [OF r3] q y0
    by (simp add: div_up_def)
  show "sint (word_of_int (?n div sint y) :: intptr_t) = ?n div sint y"
    using sint_checked [OF r3] by simp
qed

text \<open>For a positive divisor, rounding \<open>g + l - 1\<close> down is rounding \<open>g\<close> up.\<close>

lemma ceiling_as_div:
  fixes g l :: int
  assumes "0 < l"
  shows "\<lceil>real_of_int g / real_of_int l\<rceil> = (g + l - 1) div l"
proof -
  define n where "n = g + l - 1"
  define q where "q = n div l"
  have e: "q * l + n mod l = n" unfolding q_def by (rule div_mult_mod_eq)
  have m: "0 \<le> n mod l" "n mod l < l" using assms by simp_all
  have lo: "g \<le> q * l" using e m n_def by linarith
  have hi: "q * l - l < g" using e m n_def by linarith
  have "real_of_int g \<le> real_of_int (q * l)" using lo by (rule of_int_le_iff [THEN iffD2])
  then have 1: "real_of_int g / real_of_int l \<le> real_of_int q"
    using assms by (simp add: pos_divide_le_eq)
  have "real_of_int (q * l - l) < real_of_int g" using hi by (rule of_int_less_iff [THEN iffD2])
  then have 2: "real_of_int q - 1 < real_of_int g / real_of_int l"
    using assms by (simp add: field_simps)
  have "\<lceil>real_of_int g / real_of_int l\<rceil> = q"
    using 1 2 by (intro ceiling_unique) auto
  then show ?thesis by (simp add: q_def n_def)
qed

lemma range_div_nonneg:
  assumes "D \<le> length g" and "D \<le> length l"
    and "\<forall>i<D. 0 < sint (l ! i) \<and> 0 \<le> sint (g ! i) \<and> sint (g ! i) + sint (l ! i) < 2 ^ 63"
  shows "range_div D g l
    = Inr (map (\<lambda>i. word_of_int ((sint (g ! i) + sint (l ! i) - 1) div sint (l ! i))) [0..<D])"
  unfolding range_div_def
  by (rule elementwise_from_zero) (use assms div_up_nonneg(1) in auto)

text \<open>
  C2. Take an nd-range of dimensionality \<open>D\<close> whose local sizes are positive and
  whose global sizes are sizes, that is, not negative. \<^verbatim>\<open>operator/\<close> adds
  \<open>GlobalSize[i] + LocalSize[i]\<close> in \<^verbatim>\<open>intptr_t\<close>, so the call is defined only when
  this sum does not overflow. Then \<^verbatim>\<open>get_group_range()\<close> returns \<open>D\<close> components,
  each the value of \<open>(GlobalSize[i] + LocalSize[i] - 1) / LocalSize[i]\<close>, and that
  value is the ceiling of \<open>GlobalSize[i] / LocalSize[i]\<close>. For the global size
  \<open>(10, 10)\<close> and the local size \<open>(3, 3)\<close> the group range is \<open>(4, 4)\<close>.
\<close>

theorem get_group_range_ceiling:
  assumes "D \<le> length (GlobalRange r)" and "D \<le> length (LocalRange r)"
    and "\<forall>i<D. 0 < sint (LocalRange r ! i) \<and> 0 \<le> sint (GlobalRange r ! i)
           \<and> sint (GlobalRange r ! i) + sint (LocalRange r ! i) < 2 ^ 63"
  shows "\<exists>gc. get_group_range D r = Inr gc \<and> length gc = D \<and>
           (\<forall>i<D. sint (gc ! i)
                     = (sint (GlobalRange r ! i) + sint (LocalRange r ! i) - 1)
                         div sint (LocalRange r ! i)
                 \<and> sint (gc ! i)
                     = \<lceil>real_of_int (sint (GlobalRange r ! i))
                          / real_of_int (sint (LocalRange r ! i))\<rceil>)"
proof -
  let ?q = "\<lambda>i. (sint (GlobalRange r ! i) + sint (LocalRange r ! i) - 1)
                   div sint (LocalRange r ! i)"
  let ?gc = "map (\<lambda>i. word_of_int (?q i) :: intptr_t) [0..<D]"
  have run: "get_group_range D r = Inr ?gc"
    unfolding get_group_range_def using assms by (rule range_div_nonneg)
  have val: "sint (?gc ! i) = ?q i" if "i < D" for i
    using that assms(3) div_up_nonneg(2) [of "LocalRange r ! i" "GlobalRange r ! i"] by simp
  have ceil: "?q i = \<lceil>real_of_int (sint (GlobalRange r ! i))
                        / real_of_int (sint (LocalRange r ! i))\<rceil>" if "i < D" for i
    using that assms(3) ceiling_as_div [of "sint (LocalRange r ! i)" "sint (GlobalRange r ! i)"]
    by simp
  show ?thesis
    using run val ceil by (intro exI [of _ ?gc]) simp
qed

theorem get_group_range_ceiling_witness:
  "\<exists>gc. get_group_range 2 (make_nd_range 2 (range_of [10, 10]) (range_of [3, 3]) None) = Inr gc
      \<and> map sint gc = [4, 4]"
proof -
  let ?r = "make_nd_range 2 (range_of [10, 10]) (range_of [3, 3]) None"
  have h1: "2 \<le> length (GlobalRange ?r)" and h2: "2 \<le> length (LocalRange ?r)"
    by (simp_all add: make_nd_range_def range_of_def)
  have h3: "\<forall>i<2. 0 < sint (LocalRange ?r ! i) \<and> 0 \<le> sint (GlobalRange ?r ! i)
           \<and> sint (GlobalRange ?r ! i) + sint (LocalRange ?r ! i) < 2 ^ 63"
    by (simp add: make_nd_range_def range_of_def less_Suc_eq numeral_2_eq_2)
  from get_group_range_ceiling [OF h1 h2 h3] obtain gc where
    run: "get_group_range 2 ?r = Inr gc" and len: "length gc = 2"
    and val: "\<forall>i<2. sint (gc ! i)
                = \<lceil>real_of_int (sint (GlobalRange ?r ! i))
                     / real_of_int (sint (LocalRange ?r ! i))\<rceil>"
    by blast
  from len obtain a b where gc: "gc = [a, b]"
    by (cases gc; cases "tl gc"; cases "tl (tl gc)") auto
  have "sint a = 4" "sint b = 4"
    using val [rule_format, of 0] val [rule_format, of 1] gc
    by (simp_all add: make_nd_range_def range_of_def ceiling_divide_eq_div)
  with run gc show ?thesis by simp
qed

section \<open>Properties of the descriptors\<close>

lemma default_offset_any_dims:
  "get_offset (make_nd_range dims global_size local_size None) = [0, 0, 0]"
  by (simp add: get_offset_def make_nd_range_def range_of_def)

text \<open>
  C4. An \<^verbatim>\<open>nd_range<1>\<close> built without an offset argument: the offset is the
  three-component vector of the default argument, not the one-component zero
  vector that \<^verbatim>\<open>id<1>()\<close> would be.
\<close>

theorem default_offset_dims_1:
  "get_offset (make_nd_range 1 (range_of [4]) (range_of [2]) None) = [0, 0, 0]
   \<and> length (get_offset (make_nd_range 1 (range_of [4]) (range_of [2]) None)) = 3
   \<and> range_default 1 = [0]"
  by (simp add: get_offset_def make_nd_range_def range_of_def range_default_def)

section \<open>Properties of the dimensional iterator\<close>

lemma for_index_run_all: "for_index i e body st = run_all body (index_seq i e) st"
proof (induction i e arbitrary: st rule: index_seq.induct)
  case (1 i e)
  show ?case
    by (subst for_index.simps, subst index_seq.simps) (auto simp: "1.IH" split: sum.splits)
qed

lemma set_index_seq: "set (index_seq i e) = {k. sint i \<le> sint k \<and> sint k < sint e}"
proof (induction i e rule: index_seq.induct)
  case (1 i e)
  show ?case
  proof (cases "sint i < sint e")
    case True
    have "set (index_seq i e) = insert i (set (index_seq (i + 1) e))"
      using True by (subst index_seq.simps) simp
    also have "\<dots> = insert i {k. sint i + 1 \<le> sint k \<and> sint k < sint e}"
      using "1.IH" [OF True] sint_succ_below [OF True] by simp
    also have "\<dots> = {k. sint i \<le> sint k \<and> sint k < sint e}"
      using True by (auto simp: order_le_less dest: signed_word_eqI)
    finally show ?thesis .
  next
    case False
    then show ?thesis by (subst index_seq.simps) auto
  qed
qed

lemma distinct_index_seq: "distinct (index_seq i e)"
proof (induction i e rule: index_seq.induct)
  case (1 i e)
  show ?case
  proof (cases "sint i < sint e")
    case True
    have "i \<notin> set (index_seq (i + 1) e)"
      using sint_succ_below [OF True] by (simp add: set_index_seq)
    then show ?thesis using True "1.IH" by (subst index_seq.simps) simp
  next
    case False
    then show ?thesis by (subst index_seq.simps) auto
  qed
qed

lemma length_index_seq: "length (index_seq i e) = nat (sint e - sint i)"
proof (induction i e rule: index_seq.induct)
  case (1 i e)
  show ?case
  proof (cases "sint i < sint e")
    case True
    then show ?thesis
      using "1.IH" [OF True] sint_succ_below [OF True] by (subst index_seq.simps) simp
  next
    case False
    then show ?thesis by (subst index_seq.simps) auto
  qed
qed

lemma run_all_append:
  "run_all f (xs @ ys) st = (case run_all f xs st of Inl e \<Rightarrow> Inl e | Inr st' \<Rightarrow> run_all f ys st')"
  by (induction xs arbitrary: st) (auto split: sum.splits)

lemma run_all_total: "run_all (\<lambda>x s. Inr (f x s)) xs st = Inr (fold f xs st)"
  by (induction xs arbitrary: st) auto

lemma with_index_simps [simp]:
  "with_index index (Inl e) = Inl e" "with_index index (Inr st) = Inr (index, st)"
  by (simp_all add: with_index_def)

lemma prefixed_Nil [simp]: "prefixed [] cs = cs"
  by (simp add: prefixed_def)

lemma prefixed_single [simp]: "prefixed p [[]] = [p]"
  by (simp add: prefixed_def)

lemma prefixed_concat:
  "prefixed p (concat (map (\<lambda>v. map ((#) v) C) vs)) = concat (map (\<lambda>v. prefixed (p @ [v]) C) vs)"
  by (simp add: prefixed_def map_concat comp_def)

lemma inner_loop_run_all:
  fixes body :: "intptr_t \<Rightarrow> id \<times> 'st \<Rightarrow> fault + id \<times> 'st"
  assumes step: "\<And>v idx s. length idx = D \<Longrightarrow>
      \<exists>idx'. length idx' = D \<and> take (Suc k) idx' = take k idx @ [v] \<and>
        body v (idx, s) = with_index idx' (run_all f (prefixed (take k idx @ [v]) C) s)"
    and "length idx = D" and "k < D"
  shows "\<exists>idx'. length idx' = D \<and> take k idx' = take k idx \<and>
      run_all body vs (idx, s)
        = with_index idx' (run_all f (concat (map (\<lambda>v. prefixed (take k idx @ [v]) C) vs)) s)"
  using assms(2)
proof (induction vs arbitrary: idx s)
  case Nil
  then show ?case by (intro exI [of _ idx]) simp
next
  case (Cons v vs)
  from step [OF Cons.prems, of v s] obtain idx1 where
    l1: "length idx1 = D" and t1: "take (Suc k) idx1 = take k idx @ [v]"
    and b1: "body v (idx, s) = with_index idx1 (run_all f (prefixed (take k idx @ [v]) C) s)"
    by blast
  have tk: "take k idx1 = take k idx"
  proof -
    have "take k idx1 = take k (take (Suc k) idx1)" by (simp add: min_def)
    also have "\<dots> = take k (take k idx @ [v])" by (simp only: t1)
    also have "\<dots> = take k idx" using Cons.prems assms(3) by simp
    finally show ?thesis .
  qed
  show ?case
  proof (cases "run_all f (prefixed (take k idx @ [v]) C) s")
    case (Inl e)
    then show ?thesis
      using b1 Cons.prems by (intro exI [of _ idx]) (simp add: run_all_append)
  next
    case (Inr s1)
    from Cons.IH [OF l1, of s1] obtain idx2 where
      l2: "length idx2 = D" and t2: "take k idx2 = take k idx1"
      and b2: "run_all body vs (idx1, s1)
        = with_index idx2 (run_all f (concat (map (\<lambda>v. prefixed (take k idx1 @ [v]) C) vs)) s1)"
      by blast
    show ?thesis
      using b1 Inr l2 t2 b2 tk by (intro exI [of _ idx2]) (simp add: run_all_append)
  qed
qed

lemma ParallelForIterate_run_all:
  assumes "level \<le> D" and "length r = D" and "length index = D"
  shows "\<exists>index'. length index' = D \<and> take (D - level) index' = take (D - level) index \<and>
     ParallelForIterate level D r (keep f) (index, st)
       = with_index index'
           (run_all f (prefixed (take (D - level) index) (cartesian (drop (D - level) r))) st)"
  using assms
proof (induction level arbitrary: index st)
  case 0
  then show ?case
    by (intro exI [of _ index]) (simp add: keep_def with_index_def split: sum.splits)
next
  case (Suc level)
  define k where "k = D - Suc level"
  have kD: "k < D" and Dl: "D - level = Suc k" using Suc.prems(1) by (simp_all add: k_def)
  have lv: "level \<le> D" using Suc.prems(1) by simp
  define C where "C = cartesian (drop (Suc k) r)"
  define body :: "intptr_t \<Rightarrow> id \<times> 'a \<Rightarrow> fault + id \<times> 'a" where
    "body = (\<lambda>sycl_index (index, st).
                    if k < length index
                    then ParallelForIterate level D r (keep f) (index[k := sycl_index], st)
                    else Inl OutOfRange)"
  have step: "\<exists>idx'. length idx' = D \<and> take (Suc k) idx' = take k idx @ [v] \<and>
        body v (idx, s) = with_index idx' (run_all f (prefixed (take k idx @ [v]) C) s)"
    if "length idx = D" for v idx s
  proof -
    have len: "length (idx[k := v]) = D" using that by simp
    have tk: "take (Suc k) (idx[k := v]) = take k idx @ [v]"
      using that kD by (simp add: take_Suc_conv_app_nth)
    have bd: "body v (idx, s) = ParallelForIterate level D r (keep f) (idx[k := v], s)"
      using that kD by (simp add: body_def)
    from Suc.IH [OF lv Suc.prems(2) len, of s] obtain idx' where
      "length idx' = D" "take (D - level) idx' = take (D - level) (idx[k := v])"
      "ParallelForIterate level D r (keep f) (idx[k := v], s)
         = with_index idx'
             (run_all f (prefixed (take (D - level) (idx[k := v]))
                (cartesian (drop (D - level) r))) s)"
      by blast
    then show ?thesis
      unfolding Dl tk C_def bd by blast
  qed
  from inner_loop_run_all [of D k body f C index "index_seq 0 (r ! k)" st, OF step Suc.prems(3) kD]
  obtain index' where l: "length index' = D" and t: "take k index' = take k index"
    and b: "run_all body (index_seq 0 (r ! k)) (index, st)
        = with_index index'
            (run_all f (concat (map (\<lambda>v. prefixed (take k index @ [v]) C) (index_seq 0 (r ! k)))) st)"
    by blast
  have dr: "drop k r = r ! k # drop (Suc k) r"
    using kD Suc.prems(2) by (simp add: Cons_nth_drop_Suc)
  have cart: "prefixed (take k index) (cartesian (drop k r))
      = concat (map (\<lambda>v. prefixed (take k index @ [v]) C) (index_seq 0 (r ! k)))"
    by (simp add: dr C_def prefixed_concat)
  have "ParallelForIterate (Suc level) D r (keep f) (index, st)
      = run_all body (index_seq 0 (r ! k)) (index, st)"
    using Suc.prems kD
    by (simp add: slot_def vector_at_def k_def [symmetric] for_index_run_all body_def)
  then show ?case
    using l t b cart by (intro exI [of _ index']) (simp add: k_def [symmetric])
qed

lemma keep_dropped:
  assumes "\<And>x s x' s'. F x s = Inr (x', s') \<Longrightarrow> x' = x"
  shows "F = keep (dropped F)"
proof (intro ext)
  fix x s
  show "F x s = keep (dropped F) x s"
    using assms [of x s] by (cases "F x s") (auto simp: keep_def dropped_def)
qed

lemma ParallelForIterate_whole:
  assumes "length r = D" and "length index = D"
    and "\<And>x s x' s'. F x s = Inr (x', s') \<Longrightarrow> x' = x"
  shows "\<exists>index'. length index' = D \<and>
     ParallelForIterate D D r F (index, st) = with_index index' (run_all (dropped F) (cartesian r) st)"
proof -
  have F: "F = keep (dropped F)" using assms(3) by (rule keep_dropped)
  from ParallelForIterate_run_all [of D D r index "dropped F" st, OF _ assms(1,2)]
  obtain index' where "length index' = D"
    "ParallelForIterate D D r (keep (dropped F)) (index, st)
       = with_index index' (run_all (dropped F) (cartesian r) st)"
    unfolding diff_self_eq_0 take_0 drop_0 prefixed_Nil by blast
  then show ?thesis using F by (intro exI [of _ index']) simp
qed

lemma parallel_for_fold:
  assumes "length r = D" and "\<And>c s. fst (f c s) = c"
  shows "parallel_for D r f st = Inr (fold (\<lambda>c s. snd (f c s)) (cartesian r) st)"
proof -
  have ld: "length (range_default D) = D" by (simp add: range_default_def)
  have k: "x' = x" if "Inr (f x s) = (Inr (x', s') :: fault + id \<times> 'a)" for x s x' s'
    using that assms(2) [of x s] by (cases "f x s") simp
  have d: "dropped (\<lambda>i s. Inr (f i s)) = (\<lambda>i s. Inr (snd (f i s)))"
    by (intro ext) (simp add: dropped_def split: prod.splits)
  have "\<exists>index'. length index' = D \<and>
     ParallelForIterate D D r (\<lambda>i s. Inr (f i s)) (range_default D, st)
       = with_index index' (run_all (dropped (\<lambda>i s. Inr (f i s))) (cartesian r) st)"
    by (rule ParallelForIterate_whole [OF assms(1) ld]) (erule k)
  then obtain index' where
    "ParallelForIterate D D r (\<lambda>i s. Inr (f i s)) (range_default D, st)
       = with_index index' (run_all (\<lambda>i s. Inr (snd (f i s))) (cartesian r) st)"
    unfolding d by blast
  then show ?thesis
    by (simp add: parallel_for_def run_all_total)
qed

lemma distinct_concat_map2:
  assumes "distinct as" and "distinct bs"
    and "\<And>a a' b b'. a \<in> set as \<Longrightarrow> a' \<in> set as \<Longrightarrow> b \<in> set bs \<Longrightarrow> b' \<in> set bs \<Longrightarrow>
            h a b = h a' b' \<Longrightarrow> a = a' \<and> b = b'"
  shows "distinct (concat (map (\<lambda>a. map (h a) bs) as))"
  using assms(1,3)
proof (induction as)
  case Nil
  then show ?case by simp
next
  case (Cons a as)
  have "distinct (map (h a) bs)"
    using assms(2) Cons.prems(2) by (auto simp: distinct_map inj_on_def)
  moreover have "distinct (concat (map (\<lambda>a. map (h a) bs) as))"
    using Cons by auto
  moreover have "set (map (h a) bs) \<inter> set (concat (map (\<lambda>a. map (h a) bs) as)) = {}"
  proof -
    have False if "b \<in> set bs" "a' \<in> set as" "b' \<in> set bs" "h a b = h a' b'" for b a' b'
    proof -
      have "a = a'" using Cons.prems(2) [of a a' b b'] that by simp
      then show False using Cons.prems(1) that by simp
    qed
    then show ?thesis by auto
  qed
  ultimately show ?case by simp
qed

lemma distinct_cartesian: "distinct (cartesian S)"
proof (induction S)
  case Nil
  then show ?case by simp
next
  case (Cons e es)
  show ?case
    unfolding cartesian.simps
    by (rule distinct_concat_map2) (use Cons distinct_index_seq in auto)
qed

lemma in_box_Nil [simp]: "in_box [] c \<longleftrightarrow> c = []"
  by (auto simp: in_box_def)

lemma in_box_Cons:
  "in_box (e # es) c \<longleftrightarrow> (\<exists>k t. c = k # t \<and> 0 \<le> sint k \<and> sint k < sint e \<and> in_box es t)"
proof (cases c)
  case Nil
  then show ?thesis by (simp add: in_box_def)
next
  case (Cons k t)
  then show ?thesis
    by (auto simp: in_box_def less_Suc_eq_0_disj)
qed

lemma set_cartesian: "set (cartesian S) = {c. in_box S c}"
proof (induction S)
  case Nil
  then show ?case by simp
next
  case (Cons e es)
  show ?case
    by (auto simp: in_box_Cons Cons set_index_seq)
qed

lemma length_cartesian: "length (cartesian S) = prod_list (map (\<lambda>e. nat (sint e)) S)"
proof (induction S)
  case Nil
  then show ?case by simp
next
  case (Cons e es)
  have "length (concat (map (\<lambda>k. map ((#) k) (cartesian es)) ks))
          = length ks * length (cartesian es)" for ks
    by (induction ks) simp_all
  then show ?case by (simp add: Cons length_index_seq)
qed

lemma length_cartesian_int:
  assumes "\<forall>e\<in>set S. 0 \<le> sint e"
  shows "int (length (cartesian S)) = prod_list (map sint S)"
proof -
  have "int (prod_list (map (\<lambda>e. nat (sint e)) S)) = prod_list (map sint S)"
    using assms by (induction S) simp_all
  then show ?thesis by (simp add: length_cartesian)
qed

lemma fold_logged:
  "fold (\<lambda>c s. snd (logged f c s)) cs (seen, st)
     = (seen @ cs, fold (\<lambda>c s. snd (f c s)) cs st)"
  by (induction cs arbitrary: seen st) (simp_all add: logged_def split: prod.splits)

lemma fst_logged: "fst (logged f c s) = fst (f c (snd s))"
  by (cases s) (simp add: logged_def split: prod.splits)

text \<open>
  C1 (as stated). The launch calls the kernel on its coordinate buffer, not on a
  copy, and the loops write only the slot of their own level into it. On the range
  \<open>(2, 2)\<close> the kernel that records its coordinate and then sets slot \<open>0\<close> of it to
  \<open>9\<close> is called on \<open>(0, 0)\<close>, \<open>(9, 1)\<close>, \<open>(1, 0)\<close> and \<open>(9, 1)\<close>: four calls, but
  \<open>(9, 1)\<close> twice, and never \<open>(0, 1)\<close> or \<open>(1, 1)\<close>.
\<close>

theorem parallel_for_overwritten_coordinate_counterexample:
  "parallel_for 2 (range_of [2, 2]) (\<lambda>c log. (c[0 := 9], log @ [c])) []
     = Inr [[0, 0], [9, 1], [1, 0], [9, 1]]"
  by (simp add: parallel_for_def range_of_def range_default_def slot_def vector_at_def
      for_index.simps numeral_2_eq_2)

text \<open>
  C1 (as amended). Take a range \<open>S\<close> of \<open>D\<close> components, none of them negative, and
  a kernel that leaves the coordinate it is called on as it is, as every kernel
  with a value or a const reference parameter does. Then the sequential flat
  launch returns, and what it does to the state is to call the kernel on the
  coordinates of \<open>cartesian S\<close> one after the other: the calls that the kernel
  records are exactly that list. The list has no repetition, holds exactly the
  coordinates of \<open>D\<close> components with \<open>0 \<le> c[i] < S[i]\<close>, and has as many elements as
  the product of the components of \<open>S\<close>. With a component equal to zero the
  kernel is not called at all.
\<close>

theorem parallel_for_covers_range:
  assumes "length S = D" and "\<forall>e\<in>set S. 0 \<le> sint e" and "\<forall>c s. fst (f c s) = c"
  shows "parallel_for D S f st = Inr (fold (\<lambda>c s. snd (f c s)) (cartesian S) st)
     \<and> parallel_for D S (logged f) ([], st)
         = Inr (cartesian S, fold (\<lambda>c s. snd (f c s)) (cartesian S) st)
     \<and> distinct (cartesian S)
     \<and> set (cartesian S)
         = {c. length c = D \<and> (\<forall>i<D. 0 \<le> sint (c ! i) \<and> sint (c ! i) < sint (S ! i))}
     \<and> int (length (cartesian S)) = prod_list (map sint S)
     \<and> (0 \<in> set S \<longrightarrow> parallel_for D S f st = Inr st
                        \<and> parallel_for D S (logged f) ([], st) = Inr ([], st))"
proof -
  have run: "parallel_for D S f st = Inr (fold (\<lambda>c s. snd (f c s)) (cartesian S) st)"
    using assms(1,3) by (intro parallel_for_fold) simp_all
  have "parallel_for D S (logged f) ([], st)
      = Inr (fold (\<lambda>c s. snd (logged f c s)) (cartesian S) ([], st))"
    using assms(1,3) by (intro parallel_for_fold) (simp_all add: fst_logged)
  then have rec: "parallel_for D S (logged f) ([], st)
      = Inr (cartesian S, fold (\<lambda>c s. snd (f c s)) (cartesian S) st)"
    by (simp add: fold_logged)
  have len: "int (length (cartesian S)) = prod_list (map sint S)"
    using assms(2) by (rule length_cartesian_int)
  have zero: "cartesian S = []" if "0 \<in> set S"
  proof -
    have "prod_list (map sint S) = 0" using that by (simp add: prod_list_zero_iff image_iff) (metis sint_0)
    then show ?thesis using len by simp
  qed
  show ?thesis
    using run rec len zero assms(1)
    by (simp add: distinct_cartesian set_cartesian in_box_def)
qed

theorem parallel_for_covers_range_witness:
  "parallel_for 2 (range_of [2, 3]) (logged (by_value (\<lambda>c n. n + 1))) ([], 0 :: nat)
     = Inr ([[0, 0], [0, 1], [0, 2], [1, 0], [1, 1], [1, 2]], 6)"
proof -
  have h1: "length (range_of [2, 3]) = 2" by (simp add: range_of_def)
  have h2: "\<forall>e\<in>set (range_of [2, 3]). 0 \<le> sint e" by (simp add: range_of_def)
  have h3: "\<forall>c s. fst (by_value (\<lambda>c n. n + 1) c (s :: nat)) = (c :: id)"
    by (simp add: by_value_def)
  have c: "cartesian (range_of [2, 3]) = [[0, 0], [0, 1], [0, 2], [1, 0], [1, 1], [1, 2]]"
    by (simp add: range_of_def index_seq.simps)
  have "parallel_for 2 (range_of [2, 3]) (logged (by_value (\<lambda>c n. n + 1))) ([], 0 :: nat)
      = Inr (cartesian (range_of [2, 3]),
          fold (\<lambda>c s. snd (by_value (\<lambda>c n. n + 1) c s)) (cartesian (range_of [2, 3])) 0)"
    using parallel_for_covers_range [OF h1 h2 h3, of 0]
    by blast
  then show ?thesis by (simp add: c by_value_def)
qed

section \<open>Properties of the grouped launch\<close>

lemma times_elem_exact:
  assumes "representable (sint a * sint b)"
  shows "times_elem a b = Inr (a * b)" and "sint (a * b) = sint a * sint b"
proof -
  have w: "word_of_int (sint a * sint b) = a * b" by simp
  show "times_elem a b = Inr (a * b)"
    using sint_checked [OF assms] w by (simp add: times_elem_def)
  show "sint (a * b) = sint a * sint b"
    using sint_checked [OF assms] w by simp
qed

lemma plus_elem_exact:
  assumes "representable (sint a + sint b)"
  shows "plus_elem a b = Inr (a + b)" and "sint (a + b) = sint a + sint b"
proof -
  have w: "word_of_int (sint a + sint b) = a + b" by simp
  show "plus_elem a b = Inr (a + b)"
    using sint_checked [OF assms] w by (simp add: plus_elem_def)
  show "sint (a + b) = sint a + sint b"
    using sint_checked [OF assms] w by simp
qed

lemma group_count_exact:
  fixes g l :: int
  assumes "0 < l" and "l dvd g"
  shows "(g + l - 1) div l = g div l"
proof -
  from assms(2) obtain k where k: "g = l * k" by (rule dvdE)
  have "(l * k + (l - 1)) div l = k + (l - 1) div l"
    using assms(1) by (subst div_mult_self4) simp_all
  moreover have "(l - 1) div l = 0"
    by (rule div_pos_pos_trivial) (use assms(1) in auto)
  ultimately show ?thesis using k assms(1) by (simp add: algebra_simps)
qed

lemma sdiv_bounds:
  fixes n y :: int
  assumes "0 < y"
  shows "0 \<le> n \<Longrightarrow> n sdiv y = n div y"
    and "n < 0 \<Longrightarrow> n sdiv y = - ((- n) div y)"
    and "min n 0 \<le> n sdiv y" and "n sdiv y \<le> max n 0"
    and "n < 0 \<Longrightarrow> n sdiv y \<le> 0"
proof -
  show p: "n sdiv y = n div y" if "0 \<le> n"
    using that assms by (simp add: signed_divide_int_def sgn_if)
  show m: "n sdiv y = - ((- n) div y)" if "n < 0"
    using that assms by (simp add: signed_divide_int_def sgn_if)
  have a: "0 \<le> \<bar>n\<bar> div y" using assms by (simp add: pos_imp_zdiv_nonneg_iff)
  have b: "\<bar>n\<bar> div y \<le> \<bar>n\<bar>" using assms by (intro div_le_self_int) simp_all
  show "min n 0 \<le> n sdiv y"
  proof (cases "0 \<le> n")
    case True
    then show ?thesis using p a by simp
  next
    case False
    then show ?thesis using m b by simp
  qed
  show "n sdiv y \<le> max n 0"
  proof (cases "0 \<le> n")
    case True
    then show ?thesis using p b by simp
  next
    case False
    then show ?thesis using m a by simp
  qed
  show "n sdiv y \<le> 0" if "n < 0"
    using that m a by simp
qed

lemma div_up_pos:
  assumes "0 < sint y" and "sint x + sint y < 2 ^ 63"
  shows "div_up x y = Inr (word_of_int ((sint x + sint y - 1) sdiv sint y))"
    and "sint (word_of_int ((sint x + sint y - 1) sdiv sint y) :: intptr_t)
           = (sint x + sint y - 1) sdiv sint y"
proof -
  let ?n = "sint x + sint y - 1"
  have lo: "- (2 ^ 63) \<le> sint x" using sint_ge [of x] by simp
  have r1: "representable (sint x + sint y)"
    using assms lo by (simp add: representable_def)
  have r2: "representable ?n"
    using assms lo by (simp add: representable_def)
  have "min ?n 0 \<le> ?n sdiv sint y" "?n sdiv sint y \<le> max ?n 0"
    using assms(1) by (rule sdiv_bounds(3), rule sdiv_bounds(4))
  then have r3: "representable (?n sdiv sint y)"
    using r2 by (simp add: representable_def min_def max_def split: if_splits)
  have y0: "y \<noteq> 0" using assms(1) by auto
  show "div_up x y = Inr (word_of_int (?n sdiv sint y))"
    using sint_checked [OF r1] sint_checked [OF r2] sint_checked [OF r3] y0
    by (simp add: div_up_def)
  show "sint (word_of_int (?n sdiv sint y) :: intptr_t) = ?n sdiv sint y"
    using sint_checked [OF r3] by simp
qed

lemma range_div_pos:
  assumes "D \<le> length g" and "D \<le> length l"
    and "\<forall>i<D. 0 < sint (l ! i) \<and> sint (g ! i) + sint (l ! i) < 2 ^ 63"
  shows "range_div D g l
    = Inr (map (\<lambda>i. word_of_int ((sint (g ! i) + sint (l ! i) - 1) sdiv sint (l ! i))) [0..<D])"
  unfolding range_div_def
  by (rule elementwise_from_zero) (use assms div_up_pos(1) in auto)

lemma exact_group_range:
  assumes "exact_launch D r"
  shows "\<exists>gr. get_group_range D r = Inr gr \<and> group_grid D r gr"
proof -
  have h: "D \<le> length (GlobalRange r)" "D \<le> length (LocalRange r)"
    "\<forall>i<D. 0 < sint (LocalRange r ! i)
           \<and> sint (GlobalRange r ! i) + sint (LocalRange r ! i) < 2 ^ 63"
    using assms by (simp_all add: exact_launch_def)
  let ?q = "\<lambda>i. (sint (GlobalRange r ! i) + sint (LocalRange r ! i) - 1)
                   sdiv sint (LocalRange r ! i)"
  let ?gc = "map (\<lambda>i. word_of_int (?q i) :: intptr_t) [0..<D]"
  have run: "get_group_range D r = Inr ?gc"
    unfolding get_group_range_def using h by (rule range_div_pos)
  have val: "sint (?gc ! i) = ?q i" if "i < D" for i
    using that h(3) div_up_pos(2) [of "LocalRange r ! i" "GlobalRange r ! i"] by simp
  have ex: "?q i * sint (LocalRange r ! i) = sint (GlobalRange r ! i)
      \<or> ?q i \<le> 0 \<and> sint (GlobalRange r ! i) < 0" if "i < D" for i
  proof (cases "0 \<le> sint (GlobalRange r ! i)")
    case True
    have l: "0 < sint (LocalRange r ! i)"
      and d: "sint (LocalRange r ! i) dvd sint (GlobalRange r ! i)"
      using that assms by (simp_all add: exact_launch_def)
    have "?q i = (sint (GlobalRange r ! i) + sint (LocalRange r ! i) - 1)
                   div sint (LocalRange r ! i)"
      using l True by (intro sdiv_bounds(1)) simp_all
    also have "\<dots> = sint (GlobalRange r ! i) div sint (LocalRange r ! i)"
      using l d by (rule group_count_exact)
    finally show ?thesis using d by simp
  next
    case False
    have l: "0 < sint (LocalRange r ! i)"
      and d: "sint (LocalRange r ! i) dvd sint (GlobalRange r ! i)"
      using that assms by (simp_all add: exact_launch_def)
    have "sint (LocalRange r ! i) dvd - sint (GlobalRange r ! i)" using d by simp
    then have "sint (LocalRange r ! i) \<le> - sint (GlobalRange r ! i)"
      using False by (intro zdvd_imp_le) simp_all
    then have "sint (GlobalRange r ! i) + sint (LocalRange r ! i) - 1 < 0" by simp
    then have "?q i \<le> 0" using l by (intro sdiv_bounds(5)) simp_all
    then show ?thesis using False by simp
  qed
  have "group_grid D r ?gc"
    using assms val ex by (simp add: group_grid_def exact_launch_def)
  with run show ?thesis by blast
qed

lemma grid_tiles_group:
  assumes "group_grid D r gr" and "in_box gr G"
  shows "tiles D r gr"
proof -
  have "sint (gr ! i) * sint (LocalRange r ! i) = sint (GlobalRange r ! i)" if "i < D" for i
  proof -
    have "0 \<le> sint (G ! i)" "sint (G ! i) < sint (gr ! i)"
      using that assms by (simp_all add: group_grid_def in_box_def)
    moreover have "sint (gr ! i) * sint (LocalRange r ! i) = sint (GlobalRange r ! i)
        \<or> sint (gr ! i) \<le> 0 \<and> sint (GlobalRange r ! i) < 0"
      using that assms(1) by (simp add: group_grid_def)
    ultimately show ?thesis by auto
  qed
  then show ?thesis
    using assms(1) by (simp add: group_grid_def tiles_def)
qed

lemma grid_tiles_global:
  assumes "group_grid D r gr" and "in_box (GlobalRange r) c"
  shows "tiles D r gr"
proof -
  have "sint (gr ! i) * sint (LocalRange r ! i) = sint (GlobalRange r ! i)" if "i < D" for i
  proof -
    have "0 \<le> sint (c ! i)" "sint (c ! i) < sint (GlobalRange r ! i)"
      using that assms by (simp_all add: group_grid_def in_box_def)
    moreover have "sint (gr ! i) * sint (LocalRange r ! i) = sint (GlobalRange r ! i)
        \<or> sint (gr ! i) \<le> 0 \<and> sint (GlobalRange r ! i) < 0"
      using that assms(1) by (simp add: group_grid_def)
    ultimately show ?thesis by auto
  qed
  then show ?thesis
    using assms(1) by (simp add: group_grid_def tiles_def)
qed

lemma grid_degenerate:
  assumes "group_grid D r gr" and "\<not> tiles D r gr"
  shows "cartesian gr = []" and "\<not> in_box (GlobalRange r) c"
proof -
  have "set (cartesian gr) = {}"
    using grid_tiles_group [OF assms(1)] assms(2) by (auto simp: set_cartesian)
  then show "cartesian gr = []" by simp
  show "\<not> in_box (GlobalRange r) c"
    using grid_tiles_global [OF assms(1)] assms(2) by blast
qed

lemma visit_bounds:
  assumes t: "tiles D r gr" and G: "in_box gr G" and L: "in_box (LocalRange r) L" and i: "i < D"
  shows "0 \<le> sint (LocalRange r ! i) * sint (G ! i)"
    and "sint (LocalRange r ! i) * sint (G ! i) + sint (LocalRange r ! i) \<le> sint (GlobalRange r ! i)"
    and "0 \<le> sint (L ! i)" and "sint (L ! i) < sint (LocalRange r ! i)"
    and "sint (GlobalRange r ! i) < 2 ^ 63"
proof -
  have l: "0 < sint (LocalRange r ! i)"
    and e: "sint (gr ! i) * sint (LocalRange r ! i) = sint (GlobalRange r ! i)"
    using t i by (simp_all add: tiles_def)
  have g0: "0 \<le> sint (G ! i)" "sint (G ! i) < sint (gr ! i)"
    using t G i by (simp_all add: tiles_def in_box_def)
  then have g: "0 \<le> sint (G ! i)" "sint (G ! i) + 1 \<le> sint (gr ! i)"
    by linarith+
  show "0 \<le> sint (L ! i)" "sint (L ! i) < sint (LocalRange r ! i)"
    using t L i by (simp_all add: tiles_def in_box_def)
  show "0 \<le> sint (LocalRange r ! i) * sint (G ! i)" using l g by simp
  have "sint (LocalRange r ! i) * (sint (G ! i) + 1) \<le> sint (LocalRange r ! i) * sint (gr ! i)"
    using l g(2) by (intro mult_left_mono) simp_all
  then show "sint (LocalRange r ! i) * sint (G ! i) + sint (LocalRange r ! i)
      \<le> sint (GlobalRange r ! i)"
    using e by (simp add: algebra_simps)
  show "sint (GlobalRange r ! i) < 2 ^ 63" using sint_lt [of "GlobalRange r ! i"] by simp
qed

lemma visit_global:
  assumes t: "tiles D r gr" and G: "in_box gr G" and L: "in_box (LocalRange r) L" and i: "i < D"
  shows "times_elem (LocalRange r ! i) (G ! i) = Inr (LocalRange r ! i * G ! i)"
    and "plus_elem (L ! i) (LocalRange r ! i * G ! i) = Inr (L ! i + LocalRange r ! i * G ! i)"
    and "sint (L ! i + LocalRange r ! i * G ! i)
           = sint (L ! i) + sint (LocalRange r ! i) * sint (G ! i)"
proof -
  note b = visit_bounds [OF t G L i]
  have r1: "representable (sint (LocalRange r ! i) * sint (G ! i))"
    using b by (simp add: representable_def)
  note m = times_elem_exact [OF r1]
  have r2: "representable (sint (L ! i) + sint (LocalRange r ! i * G ! i))"
    using b m(2) by (simp add: representable_def)
  note p = plus_elem_exact [OF r2]
  show "times_elem (LocalRange r ! i) (G ! i) = Inr (LocalRange r ! i * G ! i)" by (rule m(1))
  show "plus_elem (L ! i) (LocalRange r ! i * G ! i) = Inr (L ! i + LocalRange r ! i * G ! i)"
    by (rule p(1))
  show "sint (L ! i + LocalRange r ! i * G ! i)
           = sint (L ! i) + sint (LocalRange r ! i) * sint (G ! i)"
    using p(2) m(2) by simp
qed

lemma reconstructItem_keeps:
  "reconstructItem D lr f G L s = Inr (x', s') \<Longrightarrow> x' = L"
  by (cases s) (auto simp: reconstructItem_def split: sum.splits)

lemma reconstructItem_visit:
  assumes t: "tiles D r gr" and G: "in_box gr G" and L: "in_box (LocalRange r) L"
  shows "dropped (reconstructItem D (LocalRange r) f G) L (Index, st)
           = Inr (visit D r f (G, L) (Index, st))"
proof -
  have lens: "length G = D" "length L = D" "length (LocalRange r) = D"
    using t G L by (simp_all add: tiles_def in_box_def)
  have tm: "range_times D (LocalRange r) G = Inr (map (\<lambda>i. LocalRange r ! i * G ! i) [0..<D])"
    unfolding range_times_def
    by (rule elementwise_from_zero) (use lens visit_global(1) [OF t G L] in auto)
  have pl: "range_plus D L (map (\<lambda>i. LocalRange r ! i * G ! i) [0..<D])
      = Inr (map (\<lambda>i. L ! i + LocalRange r ! i * G ! i) [0..<D])"
    unfolding range_plus_def
    by (rule elementwise_from_zero) (use lens visit_global(2) [OF t G L] in auto)
  show ?thesis
    by (simp add: dropped_def reconstructItem_def tm pl visit_def split: prod.splits)
qed

lemma run_all_reconstructItem:
  assumes t: "tiles D r gr" and G: "in_box gr G" and Ls: "\<forall>L\<in>set Lq. in_box (LocalRange r) L"
  shows "run_all (dropped (reconstructItem D (LocalRange r) f G)) Lq s
        = Inr (fold (visit D r f) (map (Pair G) Lq) s)"
  using Ls
proof (induction Lq arbitrary: s)
  case Nil
  then show ?case by simp
next
  case (Cons L Lq)
  obtain Index st where s: "s = (Index, st)" by (cases s)
  have L: "in_box (LocalRange r) L" using Cons.prems by simp
  from Cons.IH [of "visit D r f (G, L) (Index, st)"] Cons.prems
  show ?case
    by (simp add: s reconstructItem_visit [OF t G L])
qed

lemma iterateInWorkGroup_keeps:
  "iterateInWorkGroup D lr f G s = Inr (x', s') \<Longrightarrow> x' = G"
  by (cases s) (auto simp: iterateInWorkGroup_def split: sum.splits)

lemma iterateInWorkGroup_visit:
  assumes t: "tiles D r gr" and G: "in_box gr G" and l: "length loc = D"
  shows "\<exists>loc'. length loc' = D \<and>
      dropped (iterateInWorkGroup D (LocalRange r) f) G (loc, s)
        = Inr (loc', fold (visit D r f) (map (Pair G) (cartesian (LocalRange r))) s)"
proof -
  obtain Index st where s: "s = (Index, st)" by (cases s)
  have lr: "length (LocalRange r) = D" using t by (simp add: tiles_def)
  have "\<exists>loc'. length loc' = D \<and>
      ParallelForIterate D D (LocalRange r) (reconstructItem D (LocalRange r) f G)
              (loc, (Index, st))
        = with_index loc' (run_all (dropped (reconstructItem D (LocalRange r) f G))
            (cartesian (LocalRange r)) (Index, st))"
    by (rule ParallelForIterate_whole [OF lr l]) (erule reconstructItem_keeps)
  then obtain loc' where l': "length loc' = D"
    and p: "ParallelForIterate D D (LocalRange r) (reconstructItem D (LocalRange r) f G)
              (loc, (Index, st))
        = with_index loc' (run_all (dropped (reconstructItem D (LocalRange r) f G))
            (cartesian (LocalRange r)) (Index, st))"
    by blast
  have "\<forall>L\<in>set (cartesian (LocalRange r)). in_box (LocalRange r) L"
    by (simp add: set_cartesian)
  from run_all_reconstructItem [OF t G this, of f "(Index, st)"]
  have "run_all (dropped (reconstructItem D (LocalRange r) f G)) (cartesian (LocalRange r))
          (Index, st)
        = Inr (fold (visit D r f) (map (Pair G) (cartesian (LocalRange r))) (Index, st))" .
  then show ?thesis
    using l' p
    by (intro exI [of _ loc']) (simp add: s dropped_def iterateInWorkGroup_def split: prod.splits)
qed

lemma run_all_iterateInWorkGroup:
  assumes gd: "group_grid D r gr" and Gs: "\<forall>G\<in>set Gq. in_box gr G"
    and l: "length loc = D"
  shows "\<exists>loc'. length loc' = D \<and>
      run_all (dropped (iterateInWorkGroup D (LocalRange r) f)) Gq (loc, s)
        = Inr (loc',
            fold (visit D r f) (concat (map (\<lambda>G. map (Pair G) (cartesian (LocalRange r))) Gq)) s)"
  using Gs l
proof (induction Gq arbitrary: loc s)
  case Nil
  then show ?case by simp
next
  case (Cons G Gq)
  have G: "in_box gr G" using Cons.prems(1) by simp
  have t: "tiles D r gr" using gd G by (rule grid_tiles_group)
  from iterateInWorkGroup_visit [OF t G Cons.prems(2), of f s] obtain loc1 where
    1: "length loc1 = D"
    "dropped (iterateInWorkGroup D (LocalRange r) f) G (loc, s)
        = Inr (loc1, fold (visit D r f) (map (Pair G) (cartesian (LocalRange r))) s)"
    by blast
  from Cons.IH [OF _ 1(1), of "fold (visit D r f) (map (Pair G) (cartesian (LocalRange r))) s"]
    Cons.prems(1)
  show ?case by (simp add: 1(2))
qed

lemma parallel_for_nd_fold:
  assumes gd: "group_grid D r gr" and g: "get_group_range D r = Inr gr"
  shows "parallel_for_nd D r f st
    = Inr (snd (fold (visit D r f) (group_pairs gr (LocalRange r)) (make_item D r, st)))"
proof -
  have lg: "length gr = D" using gd by (simp add: group_grid_def)
  have ld: "length (range_default D) = D" by (simp add: range_default_def)
  have "\<exists>grp'. length grp' = D \<and>
      ParallelForIterate D D gr (iterateInWorkGroup D (LocalRange r) f)
              (range_default D, (range_default D, make_item D r, st))
        = with_index grp' (run_all (dropped (iterateInWorkGroup D (LocalRange r) f)) (cartesian gr)
            (range_default D, make_item D r, st))"
    by (rule ParallelForIterate_whole [OF lg ld]) (erule iterateInWorkGroup_keeps)
  then obtain grp' where
    p: "ParallelForIterate D D gr (iterateInWorkGroup D (LocalRange r) f)
              (range_default D, (range_default D, make_item D r, st))
        = with_index grp' (run_all (dropped (iterateInWorkGroup D (LocalRange r) f)) (cartesian gr)
            (range_default D, make_item D r, st))"
    by blast
  have "\<forall>G\<in>set (cartesian gr). in_box gr G" by (simp add: set_cartesian)
  from run_all_iterateInWorkGroup [OF gd this ld, of f "(make_item D r, st)"] obtain loc' where
    "run_all (dropped (iterateInWorkGroup D (LocalRange r) f)) (cartesian gr)
        (range_default D, make_item D r, st)
      = Inr (loc', fold (visit D r f) (group_pairs gr (LocalRange r)) (make_item D r, st))"
    unfolding group_pairs_def by blast
  then show ?thesis
    using p g by (simp add: parallel_for_nd_def get_local_range_def split: prod.splits)
qed

lemma grouped_visits_pairs:
  "grouped_visits D r gr = map (\<lambda>(G, L). reconstructed D r G L) (group_pairs gr (LocalRange r))"
  by (simp add: grouped_visits_def group_pairs_def map_concat comp_def)

lemma fold_visit_by_value:
  assumes "NDRange Index = r"
  shows "\<exists>Index'. NDRange Index' = r \<and>
     fold (visit D r (by_value k)) ps (Index, st)
       = (Index', fold k (map (\<lambda>(G, L). reconstructed D r G L) ps) st)"
  using assms
proof (induction ps arbitrary: Index st)
  case Nil
  then show ?case by simp
next
  case (Cons p ps)
  obtain G L where p: "p = (G, L)" by (cases p)
  have it: "set_global g (set_local L Index) = \<lparr>GlobalIndex = g, LocalIndex = L, NDRange = r\<rparr>" for g
    using Cons.prems by (cases Index) (simp add: set_global_def set_local_def)
  have N': "NDRange (reconstructed D r G L) = r" by (simp add: reconstructed_def)
  have "visit D r (by_value k) p (Index, st)
      = (reconstructed D r G L, k (reconstructed D r G L) st)"
    by (simp add: p visit_def by_value_def it reconstructed_def)
  with Cons.IH [OF N', of "k (reconstructed D r G L) st"] show ?case
    by (simp add: p)
qed

lemma fold_visit_logged:
  "\<exists>seen'. fold (visit D r (logged f)) ps (Index, (seen, st))
       = (fst (fold (visit D r f) ps (Index, st)),
          (seen @ seen', snd (fold (visit D r f) ps (Index, st))))
     \<and> map get_local seen' = map (\<lambda>(G, L). get_local (reconstructed D r G L)) ps
     \<and> map get_global seen' = map (\<lambda>(G, L). get_global (reconstructed D r G L)) ps"
proof (induction ps arbitrary: Index seen st)
  case Nil
  then show ?case by simp
next
  case (Cons p ps)
  obtain G L where p: "p = (G, L)" by (cases p)
  define x where
    "x = set_global (map (\<lambda>i. L ! i + LocalRange r ! i * G ! i) [0..<D]) (set_local L Index)"
  obtain Index1 st1 where f: "f x st = (Index1, st1)" by (cases "f x st")
  have v: "visit D r f (G, L) (Index, st) = (Index1, st1)"
    by (simp add: visit_def x_def [symmetric] f)
  have vl: "visit D r (logged f) (G, L) (Index, (seen, st)) = (Index1, (seen @ [x], st1))"
    by (simp add: visit_def x_def [symmetric] logged_def f)
  have gx: "get_local x = get_local (reconstructed D r G L)"
    "get_global x = get_global (reconstructed D r G L)"
    by (simp_all add: x_def get_local_def get_global_def set_global_def set_local_def
        reconstructed_def)
  from Cons.IH [of Index1 "seen @ [x]" st1] obtain seen' where
    1: "fold (visit D r (logged f)) ps (Index1, (seen @ [x], st1))
       = (fst (fold (visit D r f) ps (Index1, st1)),
          ((seen @ [x]) @ seen', snd (fold (visit D r f) ps (Index1, st1))))"
    and 2: "map get_local seen' = map (\<lambda>(G, L). get_local (reconstructed D r G L)) ps"
    and 3: "map get_global seen' = map (\<lambda>(G, L). get_global (reconstructed D r G L)) ps"
    by blast
  show ?case
    using 1 2 3 by (intro exI [of _ "x # seen'"]) (simp add: v vl p gx)
qed

lemma quotient_remainder_unique:
  fixes s g g' l l' :: int
  assumes "0 \<le> l" "l < s" "0 \<le> l'" "l' < s" and e: "l + s * g = l' + s * g'"
  shows "g = g' \<and> l = l'"
proof -
  have s0: "s \<noteq> 0" using assms by auto
  have "(l + s * g) div s = g + l div s" using s0 by (rule div_mult_self2)
  moreover have "(l' + s * g') div s = g' + l' div s" using s0 by (rule div_mult_self2)
  moreover have "l div s = 0" "l' div s = 0" using assms by (simp_all add: div_pos_pos_trivial)
  ultimately have "g = g'" using e by simp
  then show ?thesis using e by simp
qed

lemma div_less_quotient:
  fixes s c q :: int
  assumes "0 < s" and "c < q * s"
  shows "c div s < q"
proof (rule ccontr)
  assume "\<not> c div s < q"
  then have "q * s \<le> (c div s) * s" using assms(1) by (intro mult_right_mono) simp_all
  also have "\<dots> = c - c mod s" by (simp add: minus_mod_eq_div_mult)
  also have "\<dots> \<le> c" using assms(1) by simp
  finally show False using assms(2) by simp
qed

lemma global_of_visit:
  "GlobalIndex (reconstructed D r G L) = map (\<lambda>i. L ! i + LocalRange r ! i * G ! i) [0..<D]"
  by (simp add: reconstructed_def)

lemma visit_in_global_box:
  assumes t: "tiles D r gr" and G: "in_box gr G" and L: "in_box (LocalRange r) L"
  shows "in_box (GlobalRange r) (GlobalIndex (reconstructed D r G L))"
proof -
  have "0 \<le> sint (L ! i + LocalRange r ! i * G ! i)
      \<and> sint (L ! i + LocalRange r ! i * G ! i) < sint (GlobalRange r ! i)" if "i < D" for i
    using visit_global(3) [OF t G L that] visit_bounds [OF t G L that] by simp
  then show ?thesis
    using t by (simp add: in_box_def global_of_visit tiles_def)
qed

lemma visit_injective:
  assumes t: "tiles D r gr" and G: "in_box gr G" and L: "in_box (LocalRange r) L"
    and G': "in_box gr G'" and L': "in_box (LocalRange r) L'"
    and e: "GlobalIndex (reconstructed D r G L) = GlobalIndex (reconstructed D r G' L')"
  shows "G = G' \<and> L = L'"
proof -
  have lens: "length G = D" "length G' = D" "length L = D" "length L' = D"
    using t G G' L L' by (simp_all add: tiles_def in_box_def)
  have c: "G ! i = G' ! i \<and> L ! i = L' ! i" if i: "i < D" for i
  proof -
    have "L ! i + LocalRange r ! i * G ! i = L' ! i + LocalRange r ! i * G' ! i"
      using e i by (simp add: global_of_visit)
    then have "sint (L ! i) + sint (LocalRange r ! i) * sint (G ! i)
        = sint (L' ! i) + sint (LocalRange r ! i) * sint (G' ! i)"
      using visit_global(3) [OF t G L i] visit_global(3) [OF t G' L' i] by simp
    then have "sint (G ! i) = sint (G' ! i) \<and> sint (L ! i) = sint (L' ! i)"
      using visit_bounds(3,4) [OF t G L i] visit_bounds(3,4) [OF t G' L' i]
      by (intro quotient_remainder_unique) simp_all
    then show ?thesis by (auto intro: signed_word_eqI)
  qed
  show ?thesis
    using lens c by (auto intro: nth_equalityI)
qed

lemma visit_surjective:
  assumes t: "tiles D r gr" and c: "in_box (GlobalRange r) c"
  shows "\<exists>G L. in_box gr G \<and> in_box (LocalRange r) L \<and> GlobalIndex (reconstructed D r G L) = c"
proof -
  let ?s = "\<lambda>i. sint (LocalRange r ! i)"
  let ?G = "map (\<lambda>i. word_of_int (sint (c ! i) div ?s i) :: intptr_t) [0..<D]"
  let ?L = "map (\<lambda>i. word_of_int (sint (c ! i) mod ?s i) :: intptr_t) [0..<D]"
  have lc: "length c = D" using t c by (simp add: in_box_def tiles_def)
  have f: "0 < ?s i" "sint (gr ! i) * ?s i = sint (GlobalRange r ! i)"
    "0 \<le> sint (c ! i)" "sint (c ! i) < sint (GlobalRange r ! i)" if "i < D" for i
    using that t c by (simp_all add: in_box_def tiles_def)
  have q: "0 \<le> sint (c ! i) div ?s i" "sint (c ! i) div ?s i < sint (gr ! i)"
    "sint (c ! i) div ?s i \<le> sint (c ! i)" if "i < D" for i
  proof -
    show "0 \<le> sint (c ! i) div ?s i" using f [OF that] by (simp add: pos_imp_zdiv_nonneg_iff)
    show "sint (c ! i) div ?s i < sint (gr ! i)"
      using f [OF that] by (intro div_less_quotient) simp_all
    show "sint (c ! i) div ?s i \<le> sint (c ! i)"
      using f [OF that] by (intro div_le_self_int) simp_all
  qed
  have m: "0 \<le> sint (c ! i) mod ?s i" "sint (c ! i) mod ?s i < ?s i" if "i < D" for i
    using f(1) [OF that] by simp_all
  have top: "sint (c ! i) < 2 ^ 63" for i using sint_lt [of "c ! i"] by simp
  have topl: "?s i < 2 ^ 63" for i using sint_lt [of "LocalRange r ! i"] by simp
  have sq: "sint (word_of_int (sint (c ! i) div ?s i) :: intptr_t) = sint (c ! i) div ?s i"
    if "i < D" for i
    using q [OF that] top [of i] by (intro sint_checked [THEN conjunct2]) (simp add: representable_def)
  have sm: "sint (word_of_int (sint (c ! i) mod ?s i) :: intptr_t) = sint (c ! i) mod ?s i"
    if "i < D" for i
    using m [OF that] topl [of i] by (intro sint_checked [THEN conjunct2]) (simp add: representable_def)
  have G: "in_box gr ?G"
    using t q(1,2) sq by (simp add: in_box_def tiles_def)
  have L: "in_box (LocalRange r) ?L"
    using t m sm by (simp add: in_box_def tiles_def)
  have comp: "?L ! i + LocalRange r ! i * ?G ! i = c ! i" if "i < D" for i
  proof -
    have "?L ! i + LocalRange r ! i * ?G ! i
        = word_of_int (sint (c ! i) mod ?s i) + word_of_int (?s i) * word_of_int (sint (c ! i) div ?s i)"
      using that by simp
    also have "\<dots> = word_of_int (sint (c ! i) mod ?s i + ?s i * (sint (c ! i) div ?s i))"
      by (simp only: of_int_add of_int_mult)
    also have "\<dots> = word_of_int (sint (c ! i))" by (simp only: mod_mult_div_eq)
    also have "\<dots> = c ! i" by simp
    finally show ?thesis .
  qed
  have "GlobalIndex (reconstructed D r ?G ?L) = c"
    unfolding global_of_visit using lc comp by (intro nth_equalityI) simp_all
  with G L show ?thesis by blast
qed

lemma distinct_global_visits:
  assumes t: "tiles D r gr"
  shows "distinct (map GlobalIndex (grouped_visits D r gr))"
proof -
  have "map GlobalIndex (grouped_visits D r gr)
      = concat (map (\<lambda>G. map (\<lambda>L. GlobalIndex (reconstructed D r G L)) (cartesian (LocalRange r)))
          (cartesian gr))"
    by (simp add: grouped_visits_def map_concat comp_def)
  moreover have "distinct \<dots>"
    by (rule distinct_concat_map2)
      (use visit_injective [OF t] in \<open>auto simp: distinct_cartesian set_cartesian\<close>)
  ultimately show ?thesis by simp
qed

lemma set_global_visits:
  assumes t: "tiles D r gr"
  shows "set (map GlobalIndex (grouped_visits D r gr)) = {c. in_box (GlobalRange r) c}"
proof -
  have "set (map GlobalIndex (grouped_visits D r gr))
      = {GlobalIndex (reconstructed D r G L) | G L. in_box gr G \<and> in_box (LocalRange r) L}"
    by (auto simp: grouped_visits_def set_cartesian)
  also have "\<dots> = {c. in_box (GlobalRange r) c}"
    using visit_in_global_box [OF t] visit_surjective [OF t] by (auto; metis)
  finally show ?thesis .
qed

lemma grid_global_visits:
  assumes gd: "group_grid D r gr"
  shows "distinct (map GlobalIndex (grouped_visits D r gr))"
    and "set (map GlobalIndex (grouped_visits D r gr)) = {c. in_box (GlobalRange r) c}"
proof -
  show "distinct (map GlobalIndex (grouped_visits D r gr))"
  proof (cases "tiles D r gr")
    case True
    then show ?thesis by (rule distinct_global_visits)
  next
    case False
    then show ?thesis using grid_degenerate(1) [OF gd] by (simp add: grouped_visits_def)
  qed
  show "set (map GlobalIndex (grouped_visits D r gr)) = {c. in_box (GlobalRange r) c}"
  proof (cases "tiles D r gr")
    case True
    then show ?thesis by (rule set_global_visits)
  next
    case False
    then show ?thesis
      using grid_degenerate [OF gd] by (simp add: grouped_visits_def)
  qed
qed

text \<open>
  C3. Take a grouped launch of dimensionality \<open>D\<close> whose global size is in every
  dimension an exact multiple of a positive local size (\<open>LocalSize[i] > 0\<close> is the
  invariant of an nd-range), and for which \<open>GlobalSize[i] + LocalSize[i]\<close>, which
  \<^verbatim>\<open>get_group_range()\<close> computes, does not overflow \<^verbatim>\<open>intptr_t\<close>. Then the launch
  returns for every kernel. The items on which it calls the kernel are, in this
  order, one for every group coordinate \<open>G\<close> of the group range and every local
  coordinate \<open>L\<close> of the local range, and the item for \<open>G\<close> and \<open>L\<close> has
  \<open>get_local() = L\<close> and \<open>get_global()[i] = L[i] + LocalSize[i] * G[i]\<close> as integers,
  whatever the offset of the nd-range is and whatever the kernel did to the item
  in the calls before; for a kernel that takes its item by value the launch is the
  fold of the kernel over the items of \<open>grouped_visits\<close>. The global coordinates of
  the items are pairwise different and are exactly the coordinates \<open>c\<close> with
  \<open>0 \<le> c[i] < GlobalSize[i]\<close>.
\<close>

theorem grouped_launch_reconstruction:
  assumes "length (GlobalRange r) = D" and "length (LocalRange r) = D"
    and "\<forall>i<D. 0 < sint (LocalRange r ! i)
            \<and> sint (LocalRange r ! i) dvd sint (GlobalRange r ! i)
            \<and> sint (GlobalRange r ! i) + sint (LocalRange r ! i) < 2 ^ 63"
  shows "\<exists>gr. get_group_range D r = Inr gr
      \<and> (\<exists>seen st'. parallel_for_nd D r (logged f) ([], st) = Inr (seen, st')
            \<and> parallel_for_nd D r f st = Inr st'
            \<and> map get_local seen = map get_local (grouped_visits D r gr)
            \<and> map get_global seen = map get_global (grouped_visits D r gr))
      \<and> parallel_for_nd D r (by_value k) s = Inr (fold k (grouped_visits D r gr) s)
      \<and> (\<forall>G\<in>set (cartesian gr). \<forall>L\<in>set (cartesian (LocalRange r)).
            get_local (reconstructed D r G L) = L
          \<and> length (get_global (reconstructed D r G L)) = D
          \<and> (\<forall>i<D. sint (get_global (reconstructed D r G L) ! i)
                     = sint (L ! i) + sint (LocalRange r ! i) * sint (G ! i)))
      \<and> distinct (map get_global (grouped_visits D r gr))
      \<and> set (map get_global (grouped_visits D r gr))
          = {c. length c = D \<and> (\<forall>i<D. 0 \<le> sint (c ! i) \<and> sint (c ! i) < sint (GlobalRange r ! i))}"
proof -
  have "exact_launch D r" using assms by (simp add: exact_launch_def)
  from exact_group_range [OF this] obtain gr where
    g: "get_group_range D r = Inr gr" and gd: "group_grid D r gr"
    by blast
  have gg: "get_global = GlobalIndex" by (rule ext) (simp add: get_global_def)
  let ?ps = "group_pairs gr (LocalRange r)"
  have N: "NDRange (make_item D r) = r" by (simp add: make_item_def)
  from fold_visit_by_value [OF N, of D k ?ps s] obtain Index' where
    "fold (visit D r (by_value k)) ?ps (make_item D r, s)
       = (Index', fold k (grouped_visits D r gr) s)"
    unfolding grouped_visits_pairs by blast
  then have val: "parallel_for_nd D r (by_value k) s = Inr (fold k (grouped_visits D r gr) s)"
    by (simp add: parallel_for_nd_fold [OF gd g])
  from fold_visit_logged [of D r f ?ps "make_item D r" "[]" st] obtain seen where
    l1: "fold (visit D r (logged f)) ?ps (make_item D r, ([], st))
       = (fst (fold (visit D r f) ?ps (make_item D r, st)),
          (seen, snd (fold (visit D r f) ?ps (make_item D r, st))))"
    and l2: "map get_local seen = map (\<lambda>(G, L). get_local (reconstructed D r G L)) ?ps"
    and l3: "map get_global seen = map (\<lambda>(G, L). get_global (reconstructed D r G L)) ?ps"
    by auto
  have every: "\<exists>seen st'. parallel_for_nd D r (logged f) ([], st) = Inr (seen, st')
            \<and> parallel_for_nd D r f st = Inr st'
            \<and> map get_local seen = map get_local (grouped_visits D r gr)
            \<and> map get_global seen = map get_global (grouped_visits D r gr)"
    using l1 l2 l3
    by (intro exI [of _ seen] exI [of _ "snd (fold (visit D r f) ?ps (make_item D r, st))"])
      (simp add: parallel_for_nd_fold [OF gd g] grouped_visits_pairs comp_def split_def)
  have item: "get_local (reconstructed D r G L) = L
          \<and> length (get_global (reconstructed D r G L)) = D
          \<and> (\<forall>i<D. sint (get_global (reconstructed D r G L) ! i)
                     = sint (L ! i) + sint (LocalRange r ! i) * sint (G ! i))"
    if "G \<in> set (cartesian gr)" "L \<in> set (cartesian (LocalRange r))" for G L
  proof -
    have G: "in_box gr G" and L: "in_box (LocalRange r) L"
      using that by (simp_all add: set_cartesian)
    have t: "tiles D r gr" using gd G by (rule grid_tiles_group)
    show ?thesis
      using visit_global(3) [OF t G L]
      by (simp add: get_local_def get_global_def reconstructed_def)
  qed
  have cover: "set (map get_global (grouped_visits D r gr))
          = {c. length c = D \<and> (\<forall>i<D. 0 \<le> sint (c ! i) \<and> sint (c ! i) < sint (GlobalRange r ! i))}"
    unfolding gg grid_global_visits(2) [OF gd] using assms(1) by (auto simp: in_box_def)
  have once: "distinct (map get_global (grouped_visits D r gr))"
    unfolding gg using gd by (rule grid_global_visits(1))
  show ?thesis
    using g every val item cover once
    by (intro exI [of _ gr]) simp
qed

theorem grouped_launch_reconstruction_witness:
  "parallel_for_nd 2 (make_nd_range 2 (range_of [4, 4]) (range_of [2, 2]) None)
      (by_value (\<lambda>it log. log @ [(get_local it, get_global it)])) []
   = Inr [([0, 0], [0, 0]), ([0, 1], [0, 1]), ([1, 0], [1, 0]), ([1, 1], [1, 1]),
          ([0, 0], [0, 2]), ([0, 1], [0, 3]), ([1, 0], [1, 2]), ([1, 1], [1, 3]),
          ([0, 0], [2, 0]), ([0, 1], [2, 1]), ([1, 0], [3, 0]), ([1, 1], [3, 1]),
          ([0, 0], [2, 2]), ([0, 1], [2, 3]), ([1, 0], [3, 2]), ([1, 1], [3, 3])]"
proof -
  let ?r = "make_nd_range 2 (range_of [4, 4]) (range_of [2, 2]) None"
  let ?f = "\<lambda>it log. log @ [(get_local it, get_global it)]"
  have h1: "length (GlobalRange ?r) = 2" and h2: "length (LocalRange ?r) = 2"
    by (simp_all add: make_nd_range_def range_of_def)
  have h3: "\<forall>i<2. 0 < sint (LocalRange ?r ! i)
            \<and> sint (LocalRange ?r ! i) dvd sint (GlobalRange ?r ! i)
            \<and> sint (GlobalRange ?r ! i) + sint (LocalRange ?r ! i) < 2 ^ 63"
    by (simp add: make_nd_range_def range_of_def less_Suc_eq numeral_2_eq_2)
  from grouped_launch_reconstruction [OF h1 h2 h3, of "by_value ?f" "[]" ?f "[]"] obtain gr where
    g: "get_group_range 2 ?r = Inr gr"
    and run: "parallel_for_nd 2 ?r (by_value ?f) [] = Inr (fold ?f (grouped_visits 2 ?r gr) [])"
    by blast
  have "get_group_range 2 ?r = Inr [2, 2]"
    by (simp add: get_group_range_def make_nd_range_def range_of_def range_div_def
      elementwise.simps vector_at_def range_default_def div_up_def checked_def
      representable_def signed_divide_int_def numeral_2_eq_2)
  with g have gr: "gr = [2, 2]" by simp
  show ?thesis
    unfolding run gr
    by (simp add: grouped_visits_def reconstructed_def make_nd_range_def range_of_def
        index_seq.simps get_local_def get_global_def numeral_2_eq_2)
qed

section \<open>Properties of the program-token and stub launches\<close>

text \<open>
  C8. The launch that takes a program token runs the launch without it, on a
  range and on an nd-range alike, whatever the token is.
\<close>

theorem parallel_for_program_inert:
  "parallel_for_program D r p f st = parallel_for D r f st
   \<and> parallel_for_nd_program D nd p g st' = parallel_for_nd D nd g st'"
  by (simp add: parallel_for_program_def parallel_for_nd_program_def)

text \<open>
  C10. \<^verbatim>\<open>parallel_for_workgroup\<close> and \<^verbatim>\<open>parallel_for_workitem\<close> return the state
  they were given, for every range and every kernel: the kernel is never run.
\<close>

theorem work_stubs_do_nothing:
  "parallel_for_workgroup r f st = st \<and> parallel_for_workitem r' f' st' = st'"
  by (simp add: parallel_for_workgroup_def parallel_for_workitem_def)

section \<open>Properties of the accessor\<close>

lemma stride_sum_Cons:
  "stride_sum (s # ss) (x # xs) = x * prod_list ss + stride_sum ss xs"
proof -
  have "[0..<Suc (length ss)] = 0 # map Suc [0..<length ss]"
    by (simp only: map_Suc_upt upt_conv_Cons [OF zero_less_Suc])
  then show ?thesis
    by (simp add: stride_sum_def c_strides_def comp_def del: upt_Suc)
qed

lemma stride_sum_Nil [simp]: "stride_sum [] c = 0"
  by (simp add: stride_sum_def)

lemma horner_stride_sum:
  "length shape \<le> length c \<Longrightarrow>
     fold (\<lambda>(s, x) acc. acc * s + x) (zip shape c) acc = acc * prod_list shape + stride_sum shape c"
proof (induction shape arbitrary: c acc)
  case Nil
  then show ?case by simp
next
  case (Cons s ss)
  then obtain x xs where c: "c = x # xs" and l: "length ss \<le> length xs"
    by (cases c) auto
  show ?case
    using Cons.IH [OF l] by (simp add: c stride_sum_Cons algebra_simps)
qed

lemma row_major_stride_sum:
  "length shape \<le> length c \<Longrightarrow> row_major shape c = stride_sum shape c"
  by (simp add: row_major_def horner_stride_sum)

lemma stride_sum_bound:
  "length shape \<le> length c \<Longrightarrow> \<forall>n<length shape. c ! n < shape ! n \<Longrightarrow>
     stride_sum shape c < prod_list shape"
proof (induction shape arbitrary: c)
  case Nil
  then show ?case by simp
next
  case (Cons s ss)
  then obtain x xs where c: "c = x # xs" and l: "length ss \<le> length xs"
    by (cases c) auto
  have x: "x < s" using Cons.prems(2) [rule_format, of 0] c by simp
  have "\<forall>n<length ss. xs ! n < ss ! n"
    using Cons.prems(2) c by auto
  from Cons.IH [OF l this] have "x * prod_list ss + stride_sum ss xs < (x + 1) * prod_list ss"
    by simp
  also have "\<dots> \<le> s * prod_list ss" using x by (intro mult_right_mono) simp_all
  finally show ?case by (simp add: c stride_sum_Cons)
qed

lemma access_element_in_bounds:
  assumes "length (extent_list A) \<le> length c"
    and "\<forall>n<length (extent_list A). index_in_extent (c ! n) (extent_list A ! n)"
  shows "access_element A c
    = Inr \<lparr>block = block (base A),
           pos = pos (base A) + stride_sum (extent_list A) (map unat c)\<rparr>"
proof -
  have a: "list_all (\<lambda>n. index_in_extent (c ! n) (extent_list A ! n)) [0..<length (extent_list A)]"
    using assms(2) by (simp add: list_all_iff)
  have eq: "stride_sum (extent_list A) (map unat c)
      = sum_list (map (\<lambda>n. unat (c ! n) * c_strides (extent_list A) ! n)
          [0..<length (extent_list A)])"
    unfolding stride_sum_def
    by (rule arg_cong [where f = sum_list], rule map_cong) (use assms(1) in simp_all)
  show ?thesis
    using assms(1) a by (simp add: access_element_def eq Let_def)
qed

lemma access_element_fault_shape:
  "access_element \<lparr>base = p, extent_list = ext\<rparr> c = Inl e
     \<Longrightarrow> access_element \<lparr>base = q, extent_list = ext\<rparr> c = Inl e"
  by (simp add: access_element_def Let_def split: if_splits)

lemma subscript_one_dimension:
  assumes "extent_list A = [e]" and "index_in_extent idx e"
  shows "subscript A idx = Inr (Element \<lparr>block = block (base A), pos = pos (base A) + unat idx\<rparr>)"
  using assms by (simp add: subscript_def c_strides_def)

text \<open>
  Where the three forms do agree. For a buffer of any shape and a coordinate \<open>c\<close>
  with as many components as the shape, each inside its extent: indexing the
  accessor by the id \<open>c\<close> and by an item whose global coordinate is \<open>c\<close> give the
  same storage location, the one at the row-major flat offset of \<open>c\<close> from the
  base of the buffer; and for a buffer of one dimension, indexing by that flat
  offset as a \<^verbatim>\<open>size_t\<close> gives this location as well.
\<close>

lemma id_and_item_forms_agree:
  assumes "length c = length (extent_list (Access b))"
    and "\<forall>n<length (extent_list (Access b)).
           0 \<le> sint (c ! n) \<and> unat (c ! n) < extent_list (Access b) ! n"
    and "get_global it = c"
  shows "subscript_id (get_access b) c
           = Inr \<lparr>block = block (base (Access b)),
                  pos = pos (base (Access b)) + row_major (extent_list (Access b)) (map unat c)\<rparr>
       \<and> subscript_item (get_access b) it = subscript_id (get_access b) c
       \<and> (length (extent_list (Access b)) = 1 \<longrightarrow>
            subscript_size_t (get_access b)
                (word_of_nat (row_major (extent_list (Access b)) (map unat c)))
              = Inr (Element \<lparr>block = block (base (Access b)),
                  pos = pos (base (Access b)) + row_major (extent_list (Access b)) (map unat c)\<rparr>))"
proof -
  let ?A = "Access b"
  have ib: "\<forall>n<length (extent_list ?A). index_in_extent (c ! n) (extent_list ?A ! n)"
    using assms(2) by (simp add: index_in_extent_def)
  have rm: "row_major (extent_list ?A) (map unat c) = stride_sum (extent_list ?A) (map unat c)"
    using assms(1) by (simp add: row_major_stride_sum)
  have 1: "subscript_id (get_access b) c
           = Inr \<lparr>block = block (base ?A),
                  pos = pos (base ?A) + row_major (extent_list ?A) (map unat c)\<rparr>"
    using access_element_in_bounds [of ?A c] assms(1) ib
    by (simp add: subscript_id_def get_access_def rm)
  have 2: "subscript_item (get_access b) it = subscript_id (get_access b) c"
    using assms(3) by (simp add: subscript_item_def subscript_id_def)
  have 3: "subscript_size_t (get_access b)
                (word_of_nat (row_major (extent_list ?A) (map unat c)))
              = Inr (Element \<lparr>block = block (base ?A),
                  pos = pos (base ?A) + row_major (extent_list ?A) (map unat c)\<rparr>)"
    if one: "length (extent_list ?A) = 1"
  proof -
    from one obtain e where e: "extent_list ?A = [e]"
      by (cases "extent_list ?A") auto
    from assms(1) e obtain x where c: "c = [x]"
      by (cases c) auto
    have flat: "row_major (extent_list ?A) (map unat c) = unat x"
      by (simp add: e c row_major_def)
    have "index_in_extent x e" using ib e c by simp
    from subscript_one_dimension [OF e this] show ?thesis
      by (simp add: subscript_size_t_def get_access_def flat one)
  qed
  show ?thesis using 1 2 3 by blast
qed

text \<open>
  C6. A buffer of shape \<open>(2, 3)\<close> over a host array of six elements, and the
  coordinate \<open>(0, 1)\<close>, whose row-major flat offset is \<open>1\<close>. Indexed by the id
  \<open>(0, 1)\<close>, and by an item whose global coordinate is \<open>(0, 1)\<close>, the accessor
  designates position \<open>1\<close> of the storage. Indexed by the flat offset \<open>1\<close>, the
  \<^verbatim>\<open>size_t\<close> form, it designates nothing: \<^verbatim>\<open>operator[](size_t)\<close> returns
  \<^verbatim>\<open>Array[Index]\<close> as \<^verbatim>\<open>auto &\<close>, and in two dimensions \<^verbatim>\<open>Array[Index]\<close> is a row that
  Boost returns by value, so the operator has no two-dimensional instance.
\<close>

theorem size_t_form_two_dimensions:
  "buffer_from_host 2 [[10, 11, 12, 13, 14, 15 :: int]] \<lparr>block = 0, pos = 0\<rparr> (range_of [2, 3])
     = Inr ([[10, 11, 12, 13, 14, 15]],
            \<lparr>Allocation = None,
             Access = \<lparr>base = \<lparr>block = 0, pos = 0\<rparr>, extent_list = [2, 3]\<rparr>,
             ReadOnly = Some False\<rparr>)
   \<and> row_major [2, 3] (map unat [0, 1 :: intptr_t]) = 1
   \<and> subscript_id
        (get_access \<lparr>Allocation = None,
             Access = \<lparr>base = \<lparr>block = 0, pos = 0\<rparr>, extent_list = [2, 3]\<rparr>,
             ReadOnly = Some False\<rparr>) [0, 1]
       = Inr \<lparr>block = 0, pos = 1\<rparr>
   \<and> subscript_item
        (get_access \<lparr>Allocation = None,
             Access = \<lparr>base = \<lparr>block = 0, pos = 0\<rparr>, extent_list = [2, 3]\<rparr>,
             ReadOnly = Some False\<rparr>)
        \<lparr>GlobalIndex = [0, 1], LocalIndex = [0, 1],
         NDRange = make_nd_range 2 (range_of [2, 3]) (range_of [1, 3]) None\<rparr>
       = Inr \<lparr>block = 0, pos = 1\<rparr>
   \<and> subscript_size_t
        (get_access \<lparr>Allocation = None,
             Access = \<lparr>base = \<lparr>block = 0, pos = 0\<rparr>, extent_list = [2, 3]\<rparr>,
             ReadOnly = Some False\<rparr>) 1
       = Inl IllFormed"
  by (simp add: buffer_from_host_def extents_of_range_def range_of_def row_major_def
      subscript_id_def subscript_item_def get_global_def access_element_def get_access_def
      index_in_extent_def c_strides_def subscript_size_t_def Let_def)

text \<open>The flag that each constructor leaves in the buffer it returns.\<close>

lemma read_only_flags:
  "buffer_from_range dimensions T_init h r = Inr (h', b) \<Longrightarrow> ReadOnly b = Some False"
  "buffer_from_host dimensions h host_data r = Inr (h', b) \<Longrightarrow> ReadOnly b = Some False"
  "buffer_from_const_host dimensions h host_data r = Inl IllFormed"
  "buffer_copy h b0 = Inr (h', b) \<Longrightarrow> ReadOnly b = Some False"
  "buffer_from_iterators T_init h start_iterator end_iterator = Inr (h', b) \<Longrightarrow> ReadOnly b = None"
  by (auto simp: buffer_from_range_def buffer_from_host_def buffer_from_const_host_def
      buffer_copy_def buffer_from_iterators_def allocate_def Let_def split: sum.splits)

text \<open>
  C9. The buffer built from the iterator pair over \<open>{1, 2, 3, 4, 5}\<close>: its storage is
  a new array with a copy of the five elements, and its read-only flag was never
  assigned.
\<close>

theorem iterator_buffer_flag_indeterminate:
  "buffer_from_iterators 0 [[1, 2, 3, 4, 5 :: int]] \<lparr>block = 0, pos = 0\<rparr> \<lparr>block = 0, pos = 5\<rparr>
     = Inr ([[1, 2, 3, 4, 5], [1, 2, 3, 4, 5]],
            \<lparr>Allocation = Some \<lparr>base = \<lparr>block = 1, pos = 0\<rparr>, extent_list = [5]\<rparr>,
             Access = \<lparr>base = \<lparr>block = 1, pos = 0\<rparr>, extent_list = [5]\<rparr>,
             ReadOnly = None\<rparr>)"
  by (simp add: buffer_from_iterators_def distance_def allocate_def assign_def num_elements_def
      assign_loop.simps heap_read_def heap_write_def Let_def numeral_eq_Suc)

section \<open>Properties of the buffer constructors\<close>

lemma size_t_index:
  assumes "k < 2 ^ 63"
  shows "sint (word_of_nat k :: intptr_t) = int k" and "unat (word_of_nat k :: intptr_t) = k"
proof -
  have w: "(word_of_nat k :: intptr_t) = word_of_int (int k)" by simp
  have r: "representable (int k)" using assms by (simp add: representable_def)
  show "sint (word_of_nat k :: intptr_t) = int k"
    unfolding w using sint_checked [OF r] by simp
  have "k < 2 ^ 64" using assms by (rule less_trans) simp
  then show "unat (word_of_nat k :: intptr_t) = k" by (simp add: unat_of_nat)
qed

lemma heap_read_old_block:
  "block q < length h \<Longrightarrow> heap_read (h @ [x]) q = heap_read h q"
  by (simp add: heap_read_def nth_append)

lemma heap_read_new_block:
  "k < length x \<Longrightarrow> heap_read (h @ [x]) \<lparr>block = length h, pos = k\<rparr> = Inr (x ! k)"
  by (simp add: heap_read_def)

lemma heap_write_new_block:
  "k < length x \<Longrightarrow>
     heap_write (h @ [x]) \<lparr>block = length h, pos = k\<rparr> v = Inr (h @ [x[k := v]])"
  by (simp add: heap_write_def)

lemma assign_loop_copies:
  assumes "a < length h" and "i + n \<le> length (h ! a)" and "length blk = n" and "k \<le> n"
  shows "assign_loop (h @ [blk]) \<lparr>block = length h, pos = k\<rparr> \<lparr>block = a, pos = i + k\<rparr>
            \<lparr>block = a, pos = i + n\<rparr> k n
       = Inr (h @ [take k blk @ take (n - k) (drop (i + k) (h ! a))])"
  using assms(3,4)
proof (induction "n - k" arbitrary: k blk)
  case 0
  then show ?case by (subst assign_loop.simps) simp
next
  case (Suc m)
  have kn: "k < n" using Suc.hyps(2) by simp
  let ?v = "h ! a ! (i + k)"
  have rd: "heap_read (h @ [blk]) \<lparr>block = a, pos = i + k\<rparr> = Inr ?v"
    using assms(1,2) kn by (simp add: heap_read_old_block) (simp add: heap_read_def)
  have wr: "heap_write (h @ [blk]) \<lparr>block = length h, pos = k\<rparr> ?v = Inr (h @ [blk[k := ?v]])"
    using kn Suc.prems(1) by (simp add: heap_write_new_block)
  have ih: "assign_loop (h @ [blk[k := ?v]]) \<lparr>block = length h, pos = Suc k\<rparr>
              \<lparr>block = a, pos = i + Suc k\<rparr> \<lparr>block = a, pos = i + n\<rparr> (Suc k) n
       = Inr (h @ [take (Suc k) (blk[k := ?v]) @ take (n - Suc k) (drop (i + Suc k) (h ! a))])"
    using Suc.hyps(2) Suc.prems kn by (intro Suc.hyps(1)) simp_all
  have t1: "take (Suc k) (blk[k := ?v]) = take k blk @ [?v]"
    using kn Suc.prems(1) by (simp add: take_Suc_conv_app_nth)
  have "drop (i + k) (h ! a) = ?v # drop (Suc (i + k)) (h ! a)"
    using assms(2) kn by (intro Cons_nth_drop_Suc [symmetric]) simp
  then have t2: "take (n - k) (drop (i + k) (h ! a)) = ?v # take (n - Suc k) (drop (i + Suc k) (h ! a))"
    using kn by (simp add: take_Suc_Cons [symmetric] Suc_diff_Suc del: take_Suc_Cons)
  show ?case
    using kn ih t1 t2 by (subst assign_loop.simps) (simp add: rd wr)
qed

lemma assign_copies:
  assumes "a < length h" and "i + n \<le> length (h ! a)"
  shows "assign (h @ [replicate n T_init]) \<lparr>base = \<lparr>block = length h, pos = 0\<rparr>, extent_list = [n]\<rparr>
            \<lparr>block = a, pos = i\<rparr> \<lparr>block = a, pos = i + n\<rparr>
       = Inr (h @ [take n (drop i (h ! a))])"
  using assign_loop_copies [OF assms, of "replicate n T_init" 0]
  by (simp add: assign_def num_elements_def)

text \<open>
  C7. Let \<open>start\<close> and \<open>end\<close> point into one array of the heap, \<open>start\<close> before
  \<open>end\<close>, both inside the array (whose element count fits \<^verbatim>\<open>ptrdiff_t\<close>, as the
  element count of every array does). Then the constructor returns a buffer that
  owns a newly allocated array, of shape \<open>(n)\<close> for the \<open>n\<close> elements between the
  two pointers; the arrays that existed before are unchanged; and for every
  \<open>k < n\<close> the accessor of the buffer indexed by the flat offset \<open>k\<close> designates an
  element whose value is the \<open>k\<close>-th element of the sequence.
\<close>

theorem iterator_buffer_copies:
  assumes "block start_iterator = block end_iterator"
    and "block start_iterator < length h"
    and "pos start_iterator < pos end_iterator"
    and "pos end_iterator \<le> length (h ! block start_iterator)"
    and "pos end_iterator - pos start_iterator < 2 ^ 63"
  shows "\<exists>h' b. buffer_from_iterators T_init h start_iterator end_iterator = Inr (h', b)
      \<and> Allocation b = Some (Access b)
      \<and> base (Access b) = \<lparr>block = length h, pos = 0\<rparr>
      \<and> extent_list (Access b) = [pos end_iterator - pos start_iterator]
      \<and> length h' = Suc (length h) \<and> take (length h) h' = h
      \<and> (\<forall>k<pos end_iterator - pos start_iterator.
            \<exists>p. subscript_size_t (get_access b) (word_of_nat k) = Inr (Element p)
              \<and> heap_read h' p = Inr (h ! block start_iterator ! (pos start_iterator + k)))"
proof -
  define a where "a = block start_iterator"
  define i where "i = pos start_iterator"
  define n where "n = pos end_iterator - pos start_iterator"
  have s: "start_iterator = \<lparr>block = a, pos = i\<rparr>"
    by (cases start_iterator) (simp add: a_def i_def)
  have e: "end_iterator = \<lparr>block = a, pos = i + n\<rparr>"
    using assms(1,3) by (cases end_iterator) (simp add: a_def i_def n_def)
  have al: "a < length h" and fit: "i + n \<le> length (h ! a)" and n63: "n < 2 ^ 63"
    using assms by (simp_all add: a_def i_def n_def)
  have "n < 2 ^ 64" using n63 by (rule less_trans) simp
  then have d: "nat ((int (i + n) - int i) mod 2 ^ 64) = n"
    by (simp add: nat_mod_distrib flip: of_nat_power of_nat_mod)
  let ?A = "\<lparr>base = \<lparr>block = length h, pos = 0\<rparr>, extent_list = [n]\<rparr>"
  let ?h' = "h @ [take n (drop i (h ! a))]"
  let ?b = "\<lparr>Allocation = Some ?A, Access = ?A, ReadOnly = None\<rparr>"
  have run: "buffer_from_iterators T_init h start_iterator end_iterator = Inr (?h', ?b)"
    unfolding s e using assign_copies [OF al fit, of T_init] d
    by (simp add: buffer_from_iterators_def distance_def allocate_def Let_def)
  have rd: "\<exists>p. subscript_size_t (get_access ?b) (word_of_nat k) = Inr (Element p)
              \<and> heap_read ?h' p = Inr (h ! a ! (i + k))" if "k < n" for k
  proof -
    have k63: "k < 2 ^ 63" using that n63 by simp
    have "index_in_extent (word_of_nat k) n"
      using that size_t_index [OF k63] by (simp add: index_in_extent_def)
    then have "subscript_size_t (get_access ?b) (word_of_nat k)
        = Inr (Element \<lparr>block = length h, pos = k\<rparr>)"
      using size_t_index(2) [OF k63]
      by (simp add: subscript_size_t_def get_access_def subscript_def c_strides_def)
    moreover have "heap_read ?h' \<lparr>block = length h, pos = k\<rparr> = Inr (h ! a ! (i + k))"
      using that fit by (simp add: heap_read_new_block)
    ultimately show ?thesis by blast
  qed
  show ?thesis
    using run rd by (intro exI [of _ ?h'] exI [of _ ?b]) (simp add: a_def i_def n_def)
qed

theorem iterator_buffer_copies_witness:
  "\<exists>h' b. buffer_from_iterators 0 [[1, 2, 3, 4, 5 :: int]]
             \<lparr>block = 0, pos = 0\<rparr> \<lparr>block = 0, pos = 5\<rparr> = Inr (h', b)
      \<and> extent_list (Access b) = [5]
      \<and> (\<exists>p. subscript_size_t (get_access b) 0 = Inr (Element p) \<and> heap_read h' p = Inr 1)
      \<and> (\<exists>p. subscript_size_t (get_access b) 1 = Inr (Element p) \<and> heap_read h' p = Inr 2)
      \<and> (\<exists>p. subscript_size_t (get_access b) 2 = Inr (Element p) \<and> heap_read h' p = Inr 3)
      \<and> (\<exists>p. subscript_size_t (get_access b) 3 = Inr (Element p) \<and> heap_read h' p = Inr 4)
      \<and> (\<exists>p. subscript_size_t (get_access b) 4 = Inr (Element p) \<and> heap_read h' p = Inr 5)"
proof -
  let ?s = "\<lparr>block = 0, pos = 0\<rparr>" and ?e = "\<lparr>block = 0, pos = 5\<rparr>"
  let ?h = "[[1, 2, 3, 4, 5 :: int]]"
  have h: "block ?s = block ?e" "block ?s < length ?h" "pos ?s < pos ?e"
    "pos ?e \<le> length (?h ! block ?s)" "pos ?e - pos ?s < 2 ^ 63"
    by simp_all
  from iterator_buffer_copies [OF h, of 0] obtain h' b where
    run: "buffer_from_iterators 0 ?h ?s ?e = Inr (h', b)"
    and ext: "extent_list (Access b) = [pos ?e - pos ?s]"
    and rd: "\<forall>k<pos ?e - pos ?s.
            \<exists>p. subscript_size_t (get_access b) (word_of_nat k) = Inr (Element p)
              \<and> heap_read h' p = Inr (?h ! block ?s ! (pos ?s + k))"
    by blast
  show ?thesis
    using run ext rd [rule_format, of 0] rd [rule_format, of 1] rd [rule_format, of 2]
      rd [rule_format, of 3] rd [rule_format, of 4]
    by (intro exI [of _ h'] exI [of _ b]) simp
qed

lemma access_element_result:
  assumes "access_element A c = Inr q"
  shows "length (extent_list A) \<le> length c"
    and "\<forall>n<length (extent_list A). index_in_extent (c ! n) (extent_list A ! n)"
    and "q = \<lparr>block = block (base A),
              pos = pos (base A) + stride_sum (extent_list A) (map unat c)\<rparr>"
proof -
  show 1: "length (extent_list A) \<le> length c"
    using assms by (simp add: access_element_def Let_def split: if_splits)
  show 2: "\<forall>n<length (extent_list A). index_in_extent (c ! n) (extent_list A ! n)"
    using assms by (simp add: access_element_def Let_def list_all_iff split: if_splits)
  show "q = \<lparr>block = block (base A),
              pos = pos (base A) + stride_sum (extent_list A) (map unat c)\<rparr>"
    using access_element_in_bounds [OF 1 2] assms by simp
qed

lemma access_element_offset_bound:
  assumes "access_element A c = Inr q"
  shows "stride_sum (extent_list A) (map unat c) < num_elements A"
proof -
  note r = access_element_result [OF assms]
  have "\<forall>n<length (extent_list A). map unat c ! n < extent_list A ! n"
    using r(1,2) by (simp add: index_in_extent_def)
  then show ?thesis
    unfolding num_elements_def using r(1) by (intro stride_sum_bound) simp_all
qed

lemma view_eta: "\<lparr>base = base A, extent_list = extent_list A\<rparr> = (A :: multi_array_ref)"
  by (cases A) simp

lemma copy_reads_same:
  assumes al: "block (base A) < length h"
    and fit: "pos (base A) + num_elements A \<le> length (h ! block (base A))"
  shows "accessor_read
           (h @ [take (num_elements A) (drop (pos (base A)) (h ! block (base A)))])
           \<lparr>Array = \<lparr>base = \<lparr>block = length h, pos = 0\<rparr>, extent_list = extent_list A\<rparr>\<rparr> c
       = accessor_read h \<lparr>Array = A\<rparr> c"
proof (cases "access_element A c")
  case (Inl e)
  then have "access_element \<lparr>base = base A, extent_list = extent_list A\<rparr> c = Inl e"
    by (simp add: view_eta)
  then have "access_element \<lparr>base = \<lparr>block = length h, pos = 0\<rparr>, extent_list = extent_list A\<rparr> c
      = Inl e"
    by (rule access_element_fault_shape)
  then show ?thesis using Inl by (simp add: accessor_read_def subscript_id_def)
next
  case (Inr q)
  let ?S = "stride_sum (extent_list A) (map unat c)"
  let ?B = "\<lparr>base = \<lparr>block = length h, pos = 0\<rparr>, extent_list = extent_list A\<rparr>"
  note r = access_element_result [OF Inr]
  have b: "?S < num_elements A" using Inr by (rule access_element_offset_bound)
  have q2: "access_element ?B c = Inr \<lparr>block = length h, pos = ?S\<rparr>"
    using access_element_in_bounds [of ?B c] r(1,2) by simp
  have "heap_read (h @ [take (num_elements A) (drop (pos (base A)) (h ! block (base A)))])
          \<lparr>block = length h, pos = ?S\<rparr>
        = Inr (h ! block (base A) ! (pos (base A) + ?S))"
    using b fit by (simp add: heap_read_new_block)
  moreover have "heap_read h q = Inr (h ! block (base A) ! (pos (base A) + ?S))"
    using al b fit r(3) by (simp add: heap_read_def)
  ultimately show ?thesis
    using Inr q2 by (simp add: accessor_read_def subscript_id_def)
qed

text \<open>
  C5. Let the view of \<open>B1\<close> lie inside an array of the heap. Then the copy
  constructor returns a buffer \<open>B2\<close> that owns a newly allocated array, which is
  not the array of \<open>B1\<close>, with the shape of \<open>B1\<close>; the arrays that existed before
  are unchanged; every read through the accessor of \<open>B2\<close> gives what the same read
  through the accessor of \<open>B1\<close> gave before the copy. A write through the
  accessor of \<open>B2\<close> succeeds wherever the accessor designates an element; after
  it the written element reads back through \<open>B2\<close>, and every read through the
  accessor of \<open>B1\<close> gives what it gave before.
\<close>

theorem buffer_copy_isolated:
  assumes "block (base (Access b1)) < length h"
    and "pos (base (Access b1)) + num_elements (Access b1)
           \<le> length (h ! block (base (Access b1)))"
  shows "\<exists>h' b2. buffer_copy h b1 = Inr (h', b2)
      \<and> Allocation b2 = Some (Access b2)
      \<and> base (Access b2) = \<lparr>block = length h, pos = 0\<rparr>
      \<and> block (base (Access b2)) \<noteq> block (base (Access b1))
      \<and> extent_list (Access b2) = extent_list (Access b1)
      \<and> length h' = Suc (length h) \<and> take (length h) h' = h
      \<and> (\<forall>c. accessor_read h' (get_access b2) c = accessor_read h (get_access b1) c)
      \<and> (\<forall>c v. (\<exists>p. subscript_id (get_access b2) c = Inr p)
            \<longrightarrow> (\<exists>h''. accessor_write h' (get_access b2) c v = Inr h''))
      \<and> (\<forall>c v h''. accessor_write h' (get_access b2) c v = Inr h''
            \<longrightarrow> accessor_read h'' (get_access b2) c = Inr v
              \<and> take (length h) h'' = h
              \<and> (\<forall>c'. accessor_read h'' (get_access b1) c'
                         = accessor_read h (get_access b1) c'))"
proof -
  let ?A = "Access b1"
  let ?elems = "take (num_elements ?A) (drop (pos (base ?A)) (h ! block (base ?A)))"
  let ?h' = "h @ [?elems]"
  let ?B = "\<lparr>base = \<lparr>block = length h, pos = 0\<rparr>, extent_list = extent_list ?A\<rparr>"
  let ?b2 = "\<lparr>Allocation = Some ?B, Access = ?B, ReadOnly = Some False\<rparr>"
  have len: "length ?elems = num_elements ?A" using assms(2) by simp
  have run: "buffer_copy h b1 = Inr (?h', ?b2)"
    using assms by (simp add: buffer_copy_def elements_def allocate_def Let_def)
  have same: "accessor_read ?h' (get_access ?b2) c = accessor_read h (get_access b1) c" for c
    using copy_reads_same [OF assms] by (simp add: get_access_def)
  have wr: "\<exists>h''. accessor_write ?h' (get_access ?b2) c v = Inr h''"
    if "\<exists>p. subscript_id (get_access ?b2) c = Inr p" for c and v :: 'a
  proof -
    from that obtain p where p: "access_element ?B c = Inr p"
      by (auto simp: subscript_id_def get_access_def)
    have "stride_sum (extent_list ?B) (map unat c) < num_elements ?B"
      using p by (rule access_element_offset_bound)
    then have "stride_sum (extent_list ?A) (map unat c) < length ?elems"
      using len by (simp add: num_elements_def)
    then show ?thesis
      using access_element_result(3) [OF p]
      by (simp add: accessor_write_def subscript_id_def get_access_def p heap_write_new_block)
  qed
  have iso: "accessor_read h'' (get_access ?b2) c = Inr v
              \<and> take (length h) h'' = h
              \<and> (\<forall>c'. accessor_read h'' (get_access b1) c'
                         = accessor_read h (get_access b1) c')"
    if w: "accessor_write ?h' (get_access ?b2) c v = Inr h''" for c h'' and v :: 'a
  proof -
    from w obtain p where p: "access_element ?B c = Inr p" and hw: "heap_write ?h' p v = Inr h''"
      by (auto simp: accessor_write_def subscript_id_def get_access_def split: sum.splits)
    let ?S = "stride_sum (extent_list ?A) (map unat c)"
    have pp: "p = \<lparr>block = length h, pos = ?S\<rparr>"
      using access_element_result(3) [OF p] by simp
    have "stride_sum (extent_list ?B) (map unat c) < num_elements ?B"
      using p by (rule access_element_offset_bound)
    then have b: "?S < length ?elems" using len by (simp add: num_elements_def)
    have h'': "h'' = h @ [?elems[?S := v]]"
      using hw b unfolding pp by (simp add: heap_write_new_block)
    have r2: "accessor_read h'' (get_access ?b2) c = Inr v"
      using b p unfolding h'' pp
      by (simp add: accessor_read_def subscript_id_def get_access_def heap_read_new_block)
    have old: "take (length h) h'' = h" by (simp add: h'')
    have r1: "accessor_read h'' (get_access b1) c' = accessor_read h (get_access b1) c'" for c'
    proof (cases "access_element ?A c'")
      case (Inl e)
      then show ?thesis by (simp add: accessor_read_def subscript_id_def get_access_def)
    next
      case (Inr q)
      have "block q < length h"
        using access_element_result(3) [OF Inr] assms(1) by simp
      then show ?thesis
        using Inr unfolding h''
        by (simp add: accessor_read_def subscript_id_def get_access_def heap_read_old_block)
    qed
    show ?thesis using r1 r2 old by blast
  qed
  have fresh: "block (base (Access ?b2)) \<noteq> block (base (Access b1))"
    using assms(1) by simp
  show ?thesis
    apply (intro exI [of _ ?h'] exI [of _ ?b2] conjI)
    subgoal by (rule run)
    subgoal by simp
    subgoal by simp
    subgoal by (rule fresh)
    subgoal by simp
    subgoal by simp
    subgoal by simp
    subgoal using same by blast
    subgoal using wr by blast
    subgoal using iso by blast
    done
qed

theorem buffer_copy_isolated_witness:
  "\<exists>h' b2 h''.
      buffer_copy [[1, 2, 3, 4, 5, 6 :: int]]
        \<lparr>Allocation = None,
         Access = \<lparr>base = \<lparr>block = 0, pos = 0\<rparr>, extent_list = [2, 3]\<rparr>,
         ReadOnly = Some False\<rparr> = Inr (h', b2)
    \<and> ReadOnly b2 = Some False
    \<and> block (base (Access b2)) = 1
    \<and> accessor_read h' (get_access b2) [1, 2] = Inr 6
    \<and> accessor_write h' (get_access b2) [1, 2] 99 = Inr h''
    \<and> accessor_read h'' (get_access b2) [1, 2] = Inr 99
    \<and> accessor_read h''
         (get_access \<lparr>Allocation = None,
            Access = \<lparr>base = \<lparr>block = 0, pos = 0\<rparr>, extent_list = [2, 3]\<rparr>,
            ReadOnly = Some False\<rparr>) [1, 2] = Inr 6"
proof -
  let ?h = "[[1, 2, 3, 4, 5, 6 :: int]]"
  let ?b1 = "\<lparr>Allocation = None,
         Access = \<lparr>base = \<lparr>block = 0, pos = 0\<rparr>, extent_list = [2, 3]\<rparr>,
         ReadOnly = Some False\<rparr>"
  have h1: "block (base (Access ?b1)) < length ?h" by simp
  have h2: "pos (base (Access ?b1)) + num_elements (Access ?b1)
           \<le> length (?h ! block (base (Access ?b1)))"
    by (simp add: num_elements_def)
  have r0: "accessor_read ?h (get_access ?b1) [1, 2] = Inr 6"
    by (simp add: accessor_read_def subscript_id_def get_access_def access_element_def
        index_in_extent_def c_strides_def heap_read_def Let_def)
  from buffer_copy_isolated [OF h1 h2] obtain h' b2 where
    run: "buffer_copy ?h ?b1 = Inr (h', b2)"
    and bs: "base (Access b2) = \<lparr>block = length ?h, pos = 0\<rparr>"
    and ex: "extent_list (Access b2) = extent_list (Access ?b1)"
    and same: "\<forall>c. accessor_read h' (get_access b2) c = accessor_read ?h (get_access ?b1) c"
    and wr: "\<forall>c v. (\<exists>p. subscript_id (get_access b2) c = Inr p)
            \<longrightarrow> (\<exists>h''. accessor_write h' (get_access b2) c v = Inr h'')"
    and iso: "\<forall>c v h''. accessor_write h' (get_access b2) c v = Inr h''
            \<longrightarrow> accessor_read h'' (get_access b2) c = Inr v
              \<and> take (length ?h) h'' = ?h
              \<and> (\<forall>c'. accessor_read h'' (get_access ?b1) c'
                         = accessor_read ?h (get_access ?b1) c')"
    by blast
  have fl: "ReadOnly b2 = Some False"
    using run by (rule read_only_flags(4))
  have "Access b2 = \<lparr>base = \<lparr>block = 1, pos = 0\<rparr>, extent_list = [2, 3]\<rparr>"
    using bs ex by (cases "Access b2") simp
  then have "\<exists>p. subscript_id (get_access b2) [1, 2] = Inr p"
    by (simp add: subscript_id_def get_access_def access_element_def index_in_extent_def Let_def)
  with wr obtain h'' where w: "accessor_write h' (get_access b2) [1, 2] 99 = Inr h''"
    by blast
  from iso w have "accessor_read h'' (get_access b2) [1, 2] = Inr 99"
    and "accessor_read h'' (get_access ?b1) [1, 2] = accessor_read ?h (get_access ?b1) [1, 2]"
    by blast+
  then show ?thesis
    using run fl bs same r0 w by (intro exI [of _ h'] exI [of _ b2] exI [of _ h'']) simp
qed

end
